theory Spec2Isabelle
  imports Complex_Main "HOL-Library.Word" "HOL-Library.Multiset" "HOL-Library.List_Lexorder"
    "HOL-Library.Product_Lexorder"
begin

section \<open>The dataset loader: \<^verbatim>\<open>src/data/datasets.py\<close>\<close>

subsection \<open>Errors, frames and tensors\<close>

text \<open>
  The exceptions \<^verbatim>\<open>load_video\<close> can raise: \<^verbatim>\<open>frames[-1]\<close> on an empty list
  (IndexError), \<^verbatim>\<open>frame_count % self.frame_step\<close> with a zero step (ZeroDivisionError), and
  \<^verbatim>\<open>torch.stack\<close> on an empty list or on tensors of different shapes (RuntimeError).
\<close>

datatype error = IndexError | ZeroDivisionError | RuntimeError

text \<open>
  \<^verbatim>\<open>cap.read()\<close> returns a \<^verbatim>\<open>uint8\<close> array of shape H x W x 3: rows of pixels, a pixel
  being its three channel values in the order the capture delivers them (channel 0, 1, 2).
  A tensor of the clip has shape C x H x W and element type \<^verbatim>\<open>float32\<close>; the only values
  the code ever stores are the integers 0..255 and 0.0, which \<^verbatim>\<open>float32\<close> holds exactly,
  so an element is modelled as the real number it denotes.
\<close>

type_synonym pixel = "8 word \<times> 8 word \<times> 8 word"
type_synonym ndarray = "pixel list list"
type_synonym uint8_tensor = "8 word list list list"
type_synonym tensor = "real list list list"

subsection \<open>The video capture\<close>

text \<open>
  A video stream has one frame size (the capture's frame height and width), and a finite
  sequence of decodable frames; the pixel of frame \<open>k\<close> at row \<open>i\<close> and column \<open>j\<close> is
  \<open>(vframes v ! k) i j\<close>. A capture handle is the stream it reads, its decode position,
  and whether it is open. Opening a path that names no readable video gives a handle
  that is not open, on which every read fails.
\<close>

record video =
  vheight :: nat
  vwidth :: nat
  vframes :: "(nat \<Rightarrow> nat \<Rightarrow> pixel) list"

record cap =
  stream :: video
  pos :: nat
  opened :: bool

text \<open>
  The world a call runs in: the video files by path, and the final state of every
  capture handle the calls so far have created, oldest first.
\<close>

record world =
  files :: "string \<Rightarrow> video option"
  handles :: "cap list"

definition no_video :: video where
  "no_video = \<lparr>vheight = 0, vwidth = 0, vframes = []\<rparr>"

definition VideoCapture :: "world \<Rightarrow> string \<Rightarrow> cap" where
  "VideoCapture w video_path =
     (case files w video_path of
        None \<Rightarrow> \<lparr>stream = no_video, pos = 0, opened = False\<rparr>
      | Some v \<Rightarrow> \<lparr>stream = v, pos = 0, opened = True\<rparr>)"

definition decode :: "video \<Rightarrow> nat \<Rightarrow> ndarray" where
  "decode v k = map (\<lambda>i. map (\<lambda>j. (vframes v ! k) i j) [0..<vwidth v]) [0..<vheight v]"

text \<open>\<^verbatim>\<open>ret, frame = cap.read()\<close>: \<open>None\<close> is \<^verbatim>\<open>ret == False\<close>.\<close>

definition read :: "cap \<Rightarrow> ndarray option \<times> cap" where
  "read c =
     (if opened c \<and> pos c < length (vframes (stream c))
      then (Some (decode (stream c) (pos c)), c\<lparr>pos := pos c + 1\<rparr>)
      else (None, c))"

definition release :: "cap \<Rightarrow> cap" where
  "release c = c\<lparr>opened := False\<rparr>"

subsection \<open>Frame conversion\<close>

text \<open>\<^verbatim>\<open>cv2.cvtColor(frame, cv2.COLOR_BGR2RGB)\<close> swaps channels 0 and 2 of every pixel.\<close>

definition cvtColor_BGR2RGB :: "ndarray \<Rightarrow> ndarray" where
  "cvtColor_BGR2RGB frame = map (map (\<lambda>(c0, c1, c2). (c2, c1, c0))) frame"

text \<open>\<^verbatim>\<open>torch.tensor(frame).permute(2, 0, 1)\<close>: H x W x C becomes C x H x W.\<close>

definition permute_2_0_1 :: "ndarray \<Rightarrow> uint8_tensor" where
  "permute_2_0_1 frame =
     [map (map (\<lambda>(c0, c1, c2). c0)) frame,
      map (map (\<lambda>(c0, c1, c2). c1)) frame,
      map (map (\<lambda>(c0, c1, c2). c2)) frame]"

definition to_float :: "uint8_tensor \<Rightarrow> tensor" where
  "to_float t = map (map (map (\<lambda>x. real (unat x)))) t"

text \<open>Lines 96 to 98: what is appended to \<^verbatim>\<open>frames\<close> for a retained frame.\<close>

definition convert_frame :: "ndarray \<Rightarrow> tensor" where
  "convert_frame frame = to_float (permute_2_0_1 (cvtColor_BGR2RGB frame))"

definition zeros_like :: "tensor \<Rightarrow> tensor" where
  "zeros_like t = map (map (map (\<lambda>_. 0))) t"

text \<open>
  The shape of a tensor, as the lengths of its rows plane by plane; for the rectangular
  tensors of the program two tensors have the same shape exactly when these agree.
\<close>

definition shape :: "tensor \<Rightarrow> nat list list" where
  "shape t = map (map length) t"

text \<open>
  \<^verbatim>\<open>torch.stack(frames)\<close> raises on an empty list and on tensors of different shapes;
  otherwise the clip is the frames in order (T x C x H x W).
\<close>

definition torch_stack :: "tensor list \<Rightarrow> error + tensor list" where
  "torch_stack ts =
     (case ts of
        [] \<Rightarrow> Inl RuntimeError
      | t # rest \<Rightarrow>
          if list_all (\<lambda>u. shape u = shape t) rest then Inr ts else Inl RuntimeError)"

subsection \<open>\<^verbatim>\<open>SignLanguageDataset.load_video\<close>\<close>

record dataset =
  data_dir :: string
  num_frames :: int
  frame_step :: int
  data :: "string list"

text \<open>
  The \<^verbatim>\<open>while\<close> loop of lines 89 to 100, with the capture's state at the exit. A zero
  \<^verbatim>\<open>frame_step\<close> raises at the \<^verbatim>\<open>%\<close>, after the read.
\<close>

function sample_loop ::
  "int \<Rightarrow> int \<Rightarrow> tensor list \<Rightarrow> int \<Rightarrow> cap \<Rightarrow> (error + tensor list) \<times> cap" where
  "sample_loop n step frames frame_count c =
     (if int (length frames) < n then
        (case read c of
           (None, c') \<Rightarrow> (Inr frames, c')
         | (Some frame, c') \<Rightarrow>
             if step = 0 then (Inl ZeroDivisionError, c')
             else if frame_count mod step = 0
             then sample_loop n step (frames @ [convert_frame frame]) (frame_count + 1) c'
             else sample_loop n step frames (frame_count + 1) c')
      else (Inr frames, c))"
  by pat_completeness auto
termination
  by (relation "measure (\<lambda>(n, step, frames, frame_count, c).
        length (vframes (stream c)) - pos c)")
     (auto simp: read_def split: if_splits)

declare sample_loop.simps [simp del]

text \<open>
  The padding loop of lines 106 and 107: each round appends a zero tensor shaped like the
  current last element, and \<^verbatim>\<open>frames[-1]\<close> raises on an empty list.
\<close>

fun pad_frames :: "nat \<Rightarrow> tensor list \<Rightarrow> error + tensor list" where
  "pad_frames 0 frames = Inr frames"
| "pad_frames (Suc k) frames =
     (if frames = [] then Inl IndexError
      else pad_frames k (frames @ [zeros_like (last frames)]))"

definition load_video :: "dataset \<Rightarrow> world \<Rightarrow> string \<Rightarrow> (error + tensor list) \<times> world" where
  "load_video self w video_path =
     (case sample_loop (num_frames self) (frame_step self) [] 0 (VideoCapture w video_path) of
        (Inl e, c) \<Rightarrow> (Inl e, w\<lparr>handles := handles w @ [c]\<rparr>)
      | (Inr frames, c) \<Rightarrow>
          (let w' = w\<lparr>handles := handles w @ [release c]\<rparr> in
           if int (length frames) < num_frames self then
             (case pad_frames (nat (num_frames self - int (length frames))) frames of
                Inl e \<Rightarrow> (Inl e, w')
              | Inr padded \<Rightarrow> (torch_stack padded, w'))
           else (torch_stack frames, w')))"

subsection \<open>Retained decode positions\<close>

text \<open>
  The decode positions the loop retains from a source of \<open>len\<close> frames: the first
  \<open>n\<close> positions whose index is a multiple of the step.
\<close>

definition retained :: "int \<Rightarrow> int \<Rightarrow> nat \<Rightarrow> nat list" where
  "retained n step len = take (nat n) (filter (\<lambda>k. int k mod step = 0) [0..<len])"

subsection \<open>Example inputs\<close>

text \<open>
  A dataset with a given clip length and step, a video of \<open>len\<close> frames of one pixel
  whose frame \<open>k\<close> has the channel values \<open>k\<close>, \<open>10 + k\<close> and \<open>20 + k\<close>, and a world
  holding one video file.
\<close>

definition dataset_of :: "int \<Rightarrow> int \<Rightarrow> dataset" where
  "dataset_of n step = \<lparr>data_dir = ''videos'', num_frames = n, frame_step = step, data = [''clip.mp4'']\<rparr>"

definition test_video :: "nat \<Rightarrow> video" where
  "test_video len =
     \<lparr>vheight = 1, vwidth = 1,
      vframes = map (\<lambda>k i j. (of_nat k, of_nat (10 + k), of_nat (20 + k))) [0..<len]\<rparr>"

definition world_of :: "video \<Rightarrow> world" where
  "world_of v = \<lparr>files = (\<lambda>p. if p = ''videos/clip.mp4'' then Some v else None), handles = []\<rparr>"

subsection \<open>Channel orders\<close>

text \<open>
  What a frame shows is a colour per pixel. A source stores the three channel values of a
  pixel in its native order (\<open>stored\<close>); \<^verbatim>\<open>cv2.VideoCapture.read\<close> hands every frame to
  the caller in the order blue, green, red, whatever the native order is (\<open>to_bgr\<close>).
  \<open>captured\<close> is the video the loader receives from a source of the given native order,
  and \<open>rgb_tensor\<close> is the tensor the specification asks for: channel first, then height,
  then width, with the channels in the order red, green, blue.
\<close>

datatype channel_order = BGR | RGB

record colour =
  red :: "8 word"
  green :: "8 word"
  blue :: "8 word"

definition stored :: "channel_order \<Rightarrow> colour \<Rightarrow> pixel" where
  "stored native c =
     (case native of BGR \<Rightarrow> (blue c, green c, red c) | RGB \<Rightarrow> (red c, green c, blue c))"

definition to_bgr :: "channel_order \<Rightarrow> pixel \<Rightarrow> pixel" where
  "to_bgr native px =
     (case native of BGR \<Rightarrow> px | RGB \<Rightarrow> (case px of (c0, c1, c2) \<Rightarrow> (c2, c1, c0)))"

definition captured :: "channel_order \<Rightarrow> nat \<Rightarrow> nat \<Rightarrow> (nat \<Rightarrow> nat \<Rightarrow> colour) list \<Rightarrow> video" where
  "captured native h w scenes =
     \<lparr>vheight = h, vwidth = w,
      vframes = map (\<lambda>f i j. to_bgr native (stored native (f i j))) scenes\<rparr>"

definition plane :: "nat \<Rightarrow> nat \<Rightarrow> (nat \<Rightarrow> nat \<Rightarrow> 8 word) \<Rightarrow> real list list" where
  "plane h w f = map (\<lambda>i. map (\<lambda>j. real (unat (f i j))) [0..<w]) [0..<h]"

definition rgb_tensor :: "nat \<Rightarrow> nat \<Rightarrow> (nat \<Rightarrow> nat \<Rightarrow> colour) \<Rightarrow> tensor" where
  "rgb_tensor h w f =
     [plane h w (\<lambda>i j. red (f i j)), plane h w (\<lambda>i j. green (f i j)),
      plane h w (\<lambda>i j. blue (f i j))]"

definition orange :: "nat \<Rightarrow> nat \<Rightarrow> colour" where
  "orange i j = \<lparr>red = 255, green = 128, blue = 0\<rparr>"

section \<open>The scraper's post-processing: \<^verbatim>\<open>src/data/raw/web_scraping.py\<close>\<close>

subsection \<open>\<^verbatim>\<open>extract_region_from_url\<close>\<close>

text \<open>
  A Python string is a sequence of Unicode code points, modelled as a list of natural
  numbers; \<open>str\<close> gives the code points of a string literal. The class \<^verbatim>\<open>\d\<close> of a
  \<^verbatim>\<open>str\<close> pattern matches every character that the Unicode database classifies as a
  decimal digit: the ten ASCII digits and the decimal digits of other scripts. This table
  belongs to the Python library and is a parameter, \<open>decimal\<close>, of the model.

  The pattern \<^verbatim>\<open>/videos/D\d{4}([BTN])\.mp4\<close> is a sequence of four pieces: a literal, four
  characters of a class, one character of a class (the group), a literal. \<open>lit\<close>, \<open>rep\<close>
  and \<open>cls\<close> match one piece at the start of a string and return what is left; \<open>match_here\<close>
  matches the pattern at the start of a string and returns group 1; \<open>re_search\<close> is
  \<^verbatim>\<open>re.search\<close>, which tries every start position from the left.
\<close>

type_synonym pystr = "nat list"

definition str :: "string \<Rightarrow> pystr" where
  "str s = map of_char s"

definition is_region :: "nat \<Rightarrow> bool" where
  "is_region c = (c \<in> set (str ''BTN''))"

definition lit :: "pystr \<Rightarrow> pystr \<Rightarrow> pystr option" where
  "lit p s = (if take (length p) s = p then Some (drop (length p) s) else None)"

fun cls :: "(nat \<Rightarrow> bool) \<Rightarrow> pystr \<Rightarrow> (nat \<times> pystr) option" where
  "cls P [] = None"
| "cls P (c # s) = (if P c then Some (c, s) else None)"

fun rep :: "nat \<Rightarrow> (nat \<Rightarrow> bool) \<Rightarrow> pystr \<Rightarrow> (pystr \<times> pystr) option" where
  "rep 0 P s = Some ([], s)"
| "rep (Suc n) P s =
     (case cls P s of
        None \<Rightarrow> None
      | Some (c, s') \<Rightarrow> (case rep n P s' of None \<Rightarrow> None | Some (cs, r) \<Rightarrow> Some (c # cs, r)))"

definition match_here :: "(nat \<Rightarrow> bool) \<Rightarrow> pystr \<Rightarrow> pystr option" where
  "match_here decimal s =
     (case lit (str ''/videos/D'') s of
        None \<Rightarrow> None
      | Some s1 \<Rightarrow>
          (case rep 4 decimal s1 of
             None \<Rightarrow> None
           | Some (ds, s2) \<Rightarrow>
               (case cls is_region s2 of
                  None \<Rightarrow> None
                | Some (g, s3) \<Rightarrow>
                    (case lit (str ''.mp4'') s3 of None \<Rightarrow> None | Some s4 \<Rightarrow> Some [g]))))"

fun re_search :: "(nat \<Rightarrow> bool) \<Rightarrow> pystr \<Rightarrow> pystr option" where
  "re_search decimal [] = match_here decimal []"
| "re_search decimal (c # s) =
     (case match_here decimal (c # s) of Some g \<Rightarrow> Some g | None \<Rightarrow> re_search decimal s)"

definition extract_region_from_url :: "(nat \<Rightarrow> bool) \<Rightarrow> pystr \<Rightarrow> pystr option" where
  "extract_region_from_url decimal video_url =
     (case re_search decimal video_url of Some group1 \<Rightarrow> Some group1 | None \<Rightarrow> None)"

text \<open>
  The specification's words, for comparison: the URL has, starting at index \<open>i\<close>, a segment
  made of \<^verbatim>\<open>/videos/D\<close>, four digits, the letter \<open>c\<close> (one of B, T, N) and \<^verbatim>\<open>.mp4\<close>.
\<close>

definition segment_at :: "(nat \<Rightarrow> bool) \<Rightarrow> pystr \<Rightarrow> nat \<Rightarrow> nat \<Rightarrow> bool" where
  "segment_at decimal url i c =
     (let s = drop i url in
      take 9 s = str ''/videos/D'' \<and> length (take 4 (drop 9 s)) = 4 \<and>
      list_all decimal (take 4 (drop 9 s)) \<and>
      take 1 (drop 13 s) = [c] \<and> c \<in> set (str ''BTN'') \<and>
      take 4 (drop 14 s) = str ''.mp4'')"

subsection \<open>\<^verbatim>\<open>process_data\<close>\<close>

text \<open>
  The CSV file is the list of its data rows, a row being the two fields that
  \<^verbatim>\<open>export_to_csv\<close> wrote: the text and the stored video path.

  Line 186, \<^verbatim>\<open>pd.read_csv\<close>, reads each column as a whole. It decides from the fields of
  a column whether the column holds strings (\<open>string_column\<close>; a column of numbers, of
  booleans or of missing values only does not), and in a column of strings it reads every
  field that is one of its missing-value markers (\<open>na_value\<close>; among them the empty field
  and \<^verbatim>\<open>NA\<close>) as \<^verbatim>\<open>NaN\<close> and every other field as the string it is. Both tables belong
  to pandas and are parameters of the model, collected with the digit table of \<^verbatim>\<open>re\<close> in
  the record \<open>library\<close>.
\<close>

datatype cell = NaN | Str pystr

datatype column = Strings "cell list" | Other

datatype pandas_error = TypeError | AttributeError

record library =
  decimal_digit :: "nat \<Rightarrow> bool"
  na_value :: "pystr \<Rightarrow> bool"
  string_column :: "pystr list \<Rightarrow> bool"

record row =
  Text :: cell
  Video_URL :: cell
  Region :: "pystr option"
  Label :: cell

definition read_column :: "library \<Rightarrow> pystr list \<Rightarrow> column" where
  "read_column lib column_values =
     (if string_column lib column_values
      then Strings (map (\<lambda>f. if na_value lib f then NaN else Str f) column_values)
      else Other)"

text \<open>
  Lines 189 to 196 work column by column. Line 190 puts the prefix before every string of
  the video column and leaves \<^verbatim>\<open>NaN\<close> in place; on a column that does not hold strings the
  addition raises \<^verbatim>\<open>TypeError\<close>. Line 193 applies \<^verbatim>\<open>extract_region_from_url\<close> to each
  cell, and \<^verbatim>\<open>re.search\<close> raises \<^verbatim>\<open>TypeError\<close> on \<^verbatim>\<open>NaN\<close>. Line 196: \<^verbatim>\<open>.str\<close> raises
  \<^verbatim>\<open>AttributeError\<close> on a column that does not hold strings; \<^verbatim>\<open>.str.replace(' ', '_')\<close>
  replaces one character by another in every string and leaves \<^verbatim>\<open>NaN\<close> in place;
  \<^verbatim>\<open>fillna('')\<close> turns a missing region into the empty string; and the sum of \<^verbatim>\<open>NaN\<close>
  and a string is \<^verbatim>\<open>NaN\<close>. \<open>process_frame\<close> is the table before line 199.
\<close>

definition add_prefix :: "pystr \<Rightarrow> column \<Rightarrow> pandas_error + cell list" where
  "add_prefix p col =
     (case col of
        Other \<Rightarrow> Inl TypeError
      | Strings cells \<Rightarrow> Inr (map (\<lambda>c. case c of NaN \<Rightarrow> NaN | Str v \<Rightarrow> Str (p @ v)) cells))"

fun apply_extract :: "(nat \<Rightarrow> bool) \<Rightarrow> cell list \<Rightarrow> pandas_error + pystr option list" where
  "apply_extract d [] = Inr []"
| "apply_extract d (NaN # cells) = Inl TypeError"
| "apply_extract d (Str url # cells) =
     (case apply_extract d cells of
        Inl e \<Rightarrow> Inl e
      | Inr regions \<Rightarrow> Inr (extract_region_from_url d url # regions))"

definition str_replace :: "nat \<Rightarrow> nat \<Rightarrow> pystr \<Rightarrow> pystr" where
  "str_replace old new s = map (\<lambda>c. if c = old then new else c) s"

definition fillna :: "pystr \<Rightarrow> pystr option \<Rightarrow> pystr" where
  "fillna v x = (case x of None \<Rightarrow> v | Some s \<Rightarrow> s)"

definition add_cell :: "cell \<Rightarrow> pystr \<Rightarrow> cell" where
  "add_cell c s = (case c of NaN \<Rightarrow> NaN | Str a \<Rightarrow> Str (a @ s))"

definition process_frame :: "library \<Rightarrow> (pystr \<times> pystr) list \<Rightarrow> pandas_error + row list" where
  "process_frame lib csv =
     (let text_column = read_column lib (map fst csv);
          video_column = read_column lib (map snd csv)
      in case add_prefix (str ''https://qipedc.moet.gov.vn'') video_column of
           Inl e \<Rightarrow> Inl e
         | Inr urls \<Rightarrow>
             (case apply_extract (decimal_digit lib) urls of
                Inl e \<Rightarrow> Inl e
              | Inr regions \<Rightarrow>
                  (case text_column of
                     Other \<Rightarrow> Inl AttributeError
                   | Strings texts \<Rightarrow>
                       Inr (map (\<lambda>(text, url, region).
                              \<lparr>Text = text, Video_URL = url, Region = region,
                               Label = add_cell
                                 (case text of NaN \<Rightarrow> NaN
                                  | Str t \<Rightarrow> Str (str_replace (of_char CHR '' '') (of_char CHR ''_'') t))
                                 (fillna [] region)\<rparr>)
                            (zip texts (zip urls regions))))))"

text \<open>
  Line 199, \<^verbatim>\<open>sort_values('Text')\<close>, orders the rows by text: strings are compared code
  point by code point and \<^verbatim>\<open>NaN\<close> comes last. The default sort is not stable, so the order
  among rows of equal text is not determined: \<open>sort_values df out\<close> says that \<open>out\<close> is a
  possible result of sorting \<open>df\<close>, and \<open>process_data lib csv res\<close> that \<open>res\<close> (a table
  or an error) is a possible result of the function.
\<close>

definition text_key :: "cell \<Rightarrow> nat \<times> pystr" where
  "text_key c = (case c of Str t \<Rightarrow> (0, t) | NaN \<Rightarrow> (1, []))"

definition sort_values :: "row list \<Rightarrow> row list \<Rightarrow> bool" where
  "sort_values df out \<longleftrightarrow> mset out = mset df \<and> sorted (map (\<lambda>r. text_key (Text r)) out)"

definition process_data :: "library \<Rightarrow> (pystr \<times> pystr) list \<Rightarrow> pandas_error + row list \<Rightarrow> bool" where
  "process_data lib csv res =
     (case (process_frame lib csv, res) of
        (Inl e, Inl e') \<Rightarrow> e = e'
      | (Inr df, Inr out) \<Rightarrow> sort_values df out
      | _ \<Rightarrow> False)"

text \<open>
  Example inputs. \<open>example_decimal\<close> is an excerpt of the Unicode table: the ASCII digits
  and the Arabic-Indic digits. \<open>example_na\<close> is the default list of missing-value markers
  of \<^verbatim>\<open>pd.read_csv\<close>. \<open>example_string_column\<close> recognises some of the columns that pandas
  reads as strings: those with a field that is no missing-value marker and holds a
  character found in no number and in no boolean, here one of \<^verbatim>\<open>/\<close>, \<^verbatim>\<open>h\<close>, \<^verbatim>\<open>m\<close>, \<^verbatim>\<open>o\<close>;
  the columns of the two example tables are of this kind.
  \<open>example_csv\<close> is a table of three scraped rows, the last one with the text
  \<^verbatim>\<open>an com\<close> written with its Vietnamese letters (code points 259 and 417);
  \<open>na_csv\<close> is a table of two rows, one of them with the text \<^verbatim>\<open>NA\<close>.
\<close>

definition example_decimal :: "nat \<Rightarrow> bool" where
  "example_decimal c = (48 \<le> c \<and> c \<le> 57 \<or> 1632 \<le> c \<and> c \<le> 1641)"

definition example_na :: "pystr \<Rightarrow> bool" where
  "example_na f =
     (f \<in> set (map str ['''', ''#N/A'', ''#N/A N/A'', ''#NA'', ''-1.#IND'', ''-1.#QNAN'', ''-NaN'',
        ''-nan'', ''1.#IND'', ''1.#QNAN'', ''<NA>'', ''N/A'', ''NA'', ''NULL'', ''NaN'', ''None'',
        ''n/a'', ''nan'', ''null'']))"

definition example_string_column :: "pystr list \<Rightarrow> bool" where
  "example_string_column column_values =
     (\<exists>f \<in> set column_values. \<not> example_na f \<and> (\<exists>c \<in> set f. c \<in> set (str ''/hmo'')))"

definition example_library :: library where
  "example_library =
     \<lparr>decimal_digit = example_decimal, na_value = example_na,
      string_column = example_string_column\<rparr>"

definition example_csv :: "(pystr \<times> pystr) list" where
  "example_csv =
     [(str ''cam on'', str ''/videos/D0002N.mp4?autoplay=true''),
      (str ''xin chao'', str ''/videos/W0003.mp4?autoplay=true''),
      ([259, 110, 32, 99, 417, 109], str ''/videos/D0001B.mp4?autoplay=true'')]"

definition na_csv :: "(pystr \<times> pystr) list" where
  "na_csv =
     [(str ''NA'', str ''/videos/D0001B.mp4?autoplay=true''),
      (str ''cam on'', str ''/videos/D0002N.mp4?autoplay=true'')]"

section \<open>Properties of the dataset loader\<close>

subsection \<open>The sampling loop\<close>

lemma upt_split: "a \<le> b \<Longrightarrow> b \<le> c \<Longrightarrow> [a..<c] = [a..<b] @ [b..<c]"
  using upt_add_eq_append[of a b "c - b"] by simp

lemma sample_loop_opened: "opened (snd (sample_loop n s fs fc c)) = opened c"
proof (induction "length (vframes (stream c)) - pos c" arbitrary: fs fc c)
  case 0
  then show ?case by (subst sample_loop.simps) (auto simp: read_def)
next
  case (Suc m)
  show ?case
  proof (cases "opened c \<and> pos c < length (vframes (stream c))")
    case False
    then show ?thesis by (subst sample_loop.simps) (auto simp: read_def)
  next
    case True
    let ?c' = "c\<lparr>pos := pos c + 1\<rparr>"
    have rd: "read c = (Some (decode (stream c) (pos c)), ?c')" using True by (simp add: read_def)
    have m: "m = length (vframes (stream ?c')) - pos ?c'" using Suc.hyps(2) by simp
    note IH = Suc.hyps(1)[OF m]
    show ?thesis using rd IH by (subst sample_loop.simps) simp
  qed
qed

lemma sample_loop_error:
  "fst (sample_loop n s fs fc c) = Inl e \<Longrightarrow> e = ZeroDivisionError"
proof (induction "length (vframes (stream c)) - pos c" arbitrary: fs fc c)
  case 0
  then show ?case by (subst (asm) sample_loop.simps) (auto simp: read_def split: if_splits)
next
  case (Suc m)
  show ?case
  proof (cases "opened c \<and> pos c < length (vframes (stream c))")
    case False
    then show ?thesis using Suc.prems
      by (subst (asm) sample_loop.simps) (auto simp: read_def split: if_splits)
  next
    case True
    let ?c' = "c\<lparr>pos := pos c + 1\<rparr>"
    have rd: "read c = (Some (decode (stream c) (pos c)), ?c')" using True by (simp add: read_def)
    have m: "m = length (vframes (stream ?c')) - pos ?c'" using Suc.hyps(2) by simp
    note IH = Suc.hyps(1)[OF m]
    show ?thesis using Suc.prems rd IH
      by (subst (asm) sample_loop.simps) (auto split: if_splits)
  qed
qed

lemma sample_loop_nonzero_step:
  "s \<noteq> 0 \<Longrightarrow> \<exists>frames. fst (sample_loop n s fs fc c) = Inr frames"
proof (induction "length (vframes (stream c)) - pos c" arbitrary: fs fc c)
  case 0
  then show ?case by (subst sample_loop.simps) (auto simp: read_def)
next
  case (Suc m)
  show ?case
  proof (cases "opened c \<and> pos c < length (vframes (stream c))")
    case False
    then show ?thesis by (subst sample_loop.simps) (auto simp: read_def)
  next
    case True
    let ?c' = "c\<lparr>pos := pos c + 1\<rparr>"
    have rd: "read c = (Some (decode (stream c) (pos c)), ?c')" using True by (simp add: read_def)
    have m: "m = length (vframes (stream ?c')) - pos ?c'" using Suc.hyps(2) by simp
    note IH = Suc.hyps(1)[OF m Suc.prems]
    show ?thesis using Suc.prems rd IH by (subst sample_loop.simps) simp
  qed
qed

lemma no_multiple_between:
  fixes s :: nat
  assumes "n * s < k" "k < Suc n * s"
  shows "k mod s \<noteq> 0"
proof
  assume "k mod s = 0"
  then have "s dvd k" by (simp add: mod_eq_0_iff_dvd)
  then obtain q where q: "k = q * s" unfolding dvd_def by (auto simp: mult.commute)
  from assms q have "n * s < q * s" "q * s < Suc n * s" by simp_all
  then have "n < q" "q < Suc n" by (simp_all only: mult_less_cancel2)
  then show False by simp
qed

lemma retained_step:
  fixes s :: nat
  assumes "0 < s"
  shows "filter (\<lambda>k. k mod s = 0) [0..<Suc (n * s)] = map (\<lambda>k. k * s) [0..<Suc n]"
proof (induction n)
  case 0
  then show ?case by simp
next
  case (Suc n)
  have le: "Suc (n * s) \<le> Suc n * s" using assms by simp
  have "[0..<Suc (Suc n * s)] = [0..<Suc n * s] @ [Suc n * s]" by simp
  also have "[0..<Suc n * s] = [0..<Suc (n * s)] @ [Suc (n * s)..<Suc n * s]"
    using le by (intro upt_split) simp_all
  finally have split: "[0..<Suc (Suc n * s)] = [0..<Suc (n * s)] @ [Suc (n * s)..<Suc n * s] @ [Suc n * s]"
    by simp
  have mid: "filter (\<lambda>k. k mod s = 0) [Suc (n * s)..<Suc n * s] = []"
    using no_multiple_between[of n s] by (auto simp: filter_empty_conv Suc_le_eq)
  have IH: "filter (\<lambda>k. k mod s = 0) [0..<Suc (n * s)] = map (\<lambda>k. k * s) [0..<Suc n]"
    by (rule Suc.IH)
  have "filter (\<lambda>k. k mod s = 0) [0..<Suc (Suc n * s)] = map (\<lambda>k. k * s) [0..<Suc n] @ [Suc n * s]"
    unfolding split filter_append IH mid by simp
  then show ?case by simp
qed

lemma retained_positions:
  fixes s :: nat
  assumes "0 < s" "0 < n" "(n - 1) * s < L"
  shows "take n (filter (\<lambda>k. k mod s = 0) [0..<L]) = map (\<lambda>k. k * s) [0..<n]"
proof -
  obtain m where n: "n = Suc m" using assms(2) by (cases n) auto
  have "[0..<L] = [0..<Suc (m * s)] @ [Suc (m * s)..<L]"
    using assms(3) n by (intro upt_split) simp_all
  then have "filter (\<lambda>k. k mod s = 0) [0..<L] =
      map (\<lambda>k. k * s) [0..<Suc m] @ filter (\<lambda>k. k mod s = 0) [Suc (m * s)..<L]"
    using retained_step[OF assms(1), of m] by simp
  then show ?thesis using n by simp
qed

lemma int_mod_nat: "0 < s \<Longrightarrow> (int k mod s = 0) = (k mod nat s = 0)"
  by (metis int_nat_eq less_le_not_le nat_int of_nat_0 zmod_int nat_0_iff of_nat_eq_0_iff order_less_imp_le)

lemma retained_nonempty: "0 < n \<Longrightarrow> 0 < len \<Longrightarrow> retained n step len \<noteq> []"
proof -
  assume a: "0 < n" "0 < len"
  then have "[0..<len] = 0 # [1..<len]" by (simp add: upt_conv_Cons)
  then have "filter (\<lambda>k. int k mod step = 0) [0..<len] = 0 # filter (\<lambda>k. int k mod step = 0) [1..<len]"
    by simp
  moreover obtain m where "nat n = Suc m" using a(1) by (cases "nat n") auto
  ultimately show ?thesis by (simp add: retained_def)
qed

lemma retained_length: "length (retained n step len) \<le> nat n"
  by (simp add: retained_def)

lemma retained_in_range: "k \<in> set (retained n step len) \<Longrightarrow> k < len"
  by (auto simp: retained_def dest: in_set_takeD)

lemma retained_enough:
  assumes "0 < n" "0 < step" "(nat n - 1) * nat step < len"
  shows "retained n step len = map (\<lambda>k. k * nat step) [0..<nat n]"
proof -
  have "retained n step len = take (nat n) (filter (\<lambda>k. k mod nat step = 0) [0..<len])"
    using assms(2) by (simp only: retained_def int_mod_nat)
  also have "\<dots> = map (\<lambda>k. k * nat step) [0..<nat n]"
    using assms by (intro retained_positions) simp_all
  finally show ?thesis .
qed

lemma sample_loop_frames:
  assumes "0 < s" "opened c"
  shows "fst (sample_loop n s acc (int (pos c)) c) =
       Inr (acc @ map (\<lambda>k. convert_frame (decode (stream c) k))
         (take (nat n - length acc)
            (filter (\<lambda>k. int k mod s = 0) [pos c..<length (vframes (stream c))])))"
  using assms
proof (induction "length (vframes (stream c)) - pos c" arbitrary: acc c)
  case 0
  then show ?case by (subst sample_loop.simps) (auto simp: read_def)
next
  case (Suc m)
  let ?c' = "c\<lparr>pos := pos c + 1\<rparr>"
  let ?f = "convert_frame (decode (stream c) (pos c))"
  have lt: "pos c < length (vframes (stream c))" using Suc.hyps(2) by simp
  have rd: "read c = (Some (decode (stream c) (pos c)), ?c')"
    using Suc.prems lt by (simp add: read_def)
  have m: "m = length (vframes (stream ?c')) - pos ?c'" using Suc.hyps(2) by simp
  have o: "opened ?c'" using Suc.prems by simp
  have up: "[pos c..<length (vframes (stream c))] =
      pos c # [Suc (pos c)..<length (vframes (stream c))]"
    using lt by (simp add: upt_conv_Cons)
  have p': "int (pos ?c') = int (pos c) + 1" by simp
  note IH = Suc.hyps(1)[OF m \<open>0 < s\<close> o, unfolded p']
  show ?case
  proof (cases "int (length acc) < n")
    case False
    then show ?thesis by (subst sample_loop.simps) simp
  next
    case True
    then have j: "nat n - length acc = Suc (nat n - length (acc @ [?f]))" by simp
    show ?thesis
    proof (cases "int (pos c) mod s = 0")
      case T2: True
      show ?thesis
        apply (subst sample_loop.simps)
        using True T2 rd \<open>0 < s\<close> IH[of "acc @ [?f]"]
        apply (simp only: up j)
        apply simp
        done
    next
      case F2: False
      show ?thesis
        apply (subst sample_loop.simps)
        using True F2 rd \<open>0 < s\<close> IH[of acc]
        apply (simp only: up)
        apply simp
        done
    qed
  qed
qed

lemma sample_loop_start:
  assumes "0 < frame_step self" "files w p = Some v"
  shows "fst (sample_loop (num_frames self) (frame_step self) [] 0 (VideoCapture w p)) =
     Inr (map (\<lambda>k. convert_frame (decode v k))
        (retained (num_frames self) (frame_step self) (length (vframes v))))"
proof -
  let ?c = "VideoCapture w p"
  have c: "opened ?c" "pos ?c = 0" "stream ?c = v" using assms(2) by (simp_all add: VideoCapture_def)
  show ?thesis
    using sample_loop_frames[OF assms(1) c(1), of "num_frames self" "[]"]
    by (simp only: c retained_def) simp
qed

subsection \<open>Padding and stacking\<close>

lemma zeros_like_idem: "zeros_like (zeros_like t) = zeros_like t"
  by (simp add: zeros_like_def)

lemma zeros_like_zero: "x \<in> set (concat (concat (zeros_like t))) \<Longrightarrow> x = 0"
  by (auto simp: zeros_like_def)

lemma pad_frames_nonempty:
  "frames \<noteq> [] \<Longrightarrow> pad_frames k frames = Inr (frames @ replicate k (zeros_like (last frames)))"
proof (induction k arbitrary: frames)
  case 0 then show ?case by simp
next
  case (Suc k)
  show ?case using Suc.prems Suc.IH[of "frames @ [zeros_like (last frames)]"]
    by (simp add: zeros_like_idem replicate_app_Cons_same)
qed

lemma pad_frames_error: "pad_frames k fs = Inl e \<Longrightarrow> e = IndexError"
  by (induction k fs rule: pad_frames.induct) (auto split: if_splits)

lemma shape_zeros_like: "shape (zeros_like t) = shape t"
  by (simp add: shape_def zeros_like_def comp_def)

lemma shape_convert_frame:
  "shape (convert_frame (decode v k)) = replicate 3 (replicate (vheight v) (vwidth v))"
  by (simp add: shape_def convert_frame_def to_float_def permute_2_0_1_def cvtColor_BGR2RGB_def
      decode_def comp_def numeral_3_eq_3 map_replicate_const)

lemma torch_stack_same_shape:
  "ts \<noteq> [] \<Longrightarrow> \<forall>t \<in> set ts. shape t = sh \<Longrightarrow> torch_stack ts = Inr ts"
  by (cases ts) (auto simp: torch_stack_def list_all_iff)

lemma torch_stack_error: "torch_stack ts = Inl e \<Longrightarrow> e = RuntimeError"
  by (auto simp: torch_stack_def split: list.splits if_splits)

subsection \<open>The result of \<^verbatim>\<open>load_video\<close>\<close>

text \<open>
  For a positive clip length and a positive step, the call raises IndexError on a source
  with no frame, and otherwise returns the converted frames at the retained positions,
  padded to the clip length with zero tensors shaped like the last of them.
\<close>

lemma load_video_after_loop:
  assumes "fst (sample_loop (num_frames self) (frame_step self) [] 0 (VideoCapture w p)) = Inr frames"
  shows "fst (load_video self w p) =
     (if int (length frames) < num_frames self then
        (case pad_frames (nat (num_frames self - int (length frames))) frames of
           Inl e \<Rightarrow> Inl e | Inr padded \<Rightarrow> torch_stack padded)
      else torch_stack frames)"
proof -
  obtain r c where rc: "sample_loop (num_frames self) (frame_step self) [] 0 (VideoCapture w p) = (r, c)"
    by (cases "sample_loop (num_frames self) (frame_step self) [] 0 (VideoCapture w p)")
  with assms have r: "r = Inr frames" by simp
  show ?thesis unfolding load_video_def rc r
    by (simp add: Let_def split: sum.splits)
qed

lemma load_video_result:
  assumes "0 < num_frames self" "0 < frame_step self" "files w p = Some v"
  shows "fst (load_video self w p) =
     (if vframes v = [] then Inl IndexError
      else Inr (map (\<lambda>k. convert_frame (decode v k))
                  (retained (num_frames self) (frame_step self) (length (vframes v))) @
                replicate (nat (num_frames self) -
                    length (retained (num_frames self) (frame_step self) (length (vframes v))))
                  (zeros_like (convert_frame (decode v
                     (last (retained (num_frames self) (frame_step self) (length (vframes v)))))))))"
proof -
  let ?n = "num_frames self" and ?s = "frame_step self"
  let ?kept = "retained ?n ?s (length (vframes v))"
  let ?fs = "map (\<lambda>k. convert_frame (decode v k)) ?kept"
  note after = load_video_after_loop[OF sample_loop_start[OF assms(2,3)]]
  show ?thesis
  proof (cases "vframes v = []")
    case True
    then have k: "?kept = []" by (simp add: retained_def)
    obtain m where m: "nat ?n = Suc m" using assms(1) by (cases "nat ?n") auto
    have "fst (load_video self w p) = Inl IndexError"
      unfolding after k using assms(1) m by simp
    then show ?thesis using True by simp
  next
    case False
    have ne: "?kept \<noteq> []" using False assms(1) by (intro retained_nonempty) simp_all
    then have fne: "?fs \<noteq> []" by simp
    have lastfs: "last ?fs = convert_frame (decode v (last ?kept))" using ne by (simp add: last_map)
    let ?z = "zeros_like (convert_frame (decode v (last ?kept)))"
    let ?pad = "?fs @ replicate (nat ?n - length ?kept) ?z"
    have sh: "\<forall>t \<in> set ?pad. shape t = replicate 3 (replicate (vheight v) (vwidth v))"
      by (auto simp: shape_convert_frame shape_zeros_like)
    have "?pad \<noteq> []" using fne by simp
    then have st: "torch_stack ?pad = Inr ?pad" using sh by (rule torch_stack_same_shape)
    have len: "length ?kept \<le> nat ?n" by (rule retained_length)
    have res: "fst (load_video self w p) = Inr ?pad"
    proof (cases "int (length ?fs) < ?n")
      case True
      have d: "nat (?n - int (length ?fs)) = nat ?n - length ?kept" by simp
      have "pad_frames (nat ?n - length ?kept) ?fs = Inr ?pad"
        using pad_frames_nonempty[OF fne, of "nat ?n - length ?kept"] lastfs by simp
      then show ?thesis unfolding after using True st d by simp
    next
      case F: False
      then have z: "nat ?n - length ?kept = 0" by simp
      then have "?pad = ?fs" by simp
      then show ?thesis unfolding after using F st by simp
    qed
    then show ?thesis using False by simp
  qed
qed

lemma load_video_enough:
  assumes "0 < num_frames self" "0 < frame_step self" "files w p = Some v"
    and "(nat (num_frames self) - 1) * nat (frame_step self) < length (vframes v)"
  shows "fst (load_video self w p) =
     Inr (map (\<lambda>k. convert_frame (decode v (k * nat (frame_step self)))) [0..<nat (num_frames self)])"
proof -
  have ne: "vframes v \<noteq> []" using assms(4) by auto
  have k: "retained (num_frames self) (frame_step self) (length (vframes v)) =
      map (\<lambda>k. k * nat (frame_step self)) [0..<nat (num_frames self)]"
    using assms(1,2,4) by (rule retained_enough)
  show ?thesis unfolding load_video_result[OF assms(1-3)] k using ne by (simp add: comp_def)
qed

lemma VideoCapture_handles: "VideoCapture (w\<lparr>handles := h\<rparr>) p = VideoCapture w p"
  by (simp add: VideoCapture_def)

lemma load_video_world: "\<exists>h. snd (load_video self w p) = w\<lparr>handles := h\<rparr>"
  by (auto simp: load_video_def Let_def split: prod.splits sum.splits)

lemma load_video_handles: "fst (load_video self (w\<lparr>handles := h\<rparr>) p) = fst (load_video self w p)"
  by (simp add: load_video_def VideoCapture_handles Let_def split: prod.splits sum.splits)

text \<open>
  So from a source with at least one frame the clip has exactly the requested length.
\<close>

lemma load_video_pads:
  assumes "0 < num_frames self" "0 < frame_step self" "files w p = Some v" "vframes v \<noteq> []"
  shows "\<exists>clip. fst (load_video self w p) = Inr clip \<and> length clip = nat (num_frames self)"
proof -
  have "length (retained (num_frames self) (frame_step self) (length (vframes v)))
      \<le> nat (num_frames self)"
    by (rule retained_length)
  then show ?thesis using load_video_result[OF assms(1-3)] assms(4) by simp
qed

subsection \<open>The channel order of a clip\<close>

lemma captured_sel:
  "vheight (captured native h w scenes) = h" "vwidth (captured native h w scenes) = w"
  "length (vframes (captured native h w scenes)) = length scenes"
  by (simp_all add: captured_def)

lemma convert_frame_captured:
  "k < length scenes \<Longrightarrow>
     convert_frame (decode (captured native h w scenes) k) = rgb_tensor h w (scenes ! k)"
  by (cases native)
     (simp_all add: convert_frame_def decode_def captured_def to_float_def permute_2_0_1_def
      cvtColor_BGR2RGB_def rgb_tensor_def plane_def stored_def to_bgr_def comp_def)

lemma shape_rgb_tensor: "shape (rgb_tensor h w f) = replicate 3 (replicate h w)"
  by (simp add: shape_def rgb_tensor_def plane_def comp_def numeral_3_eq_3 map_replicate_const)

lemma sample_loop_members:
  assumes "fst (sample_loop n s acc fc c) = Inr frames"
    and "\<forall>t \<in> set acc. \<exists>k < length (vframes (stream c)). t = convert_frame (decode (stream c) k)"
  shows "\<forall>t \<in> set frames. \<exists>k < length (vframes (stream c)). t = convert_frame (decode (stream c) k)"
  using assms
proof (induction "length (vframes (stream c)) - pos c" arbitrary: acc fc c)
  case 0
  then show ?case by (subst (asm) sample_loop.simps) (auto simp: read_def split: if_splits)
next
  case (Suc m)
  show ?case
  proof (cases "opened c \<and> pos c < length (vframes (stream c))")
    case False
    then show ?thesis using Suc.prems
      by (subst (asm) sample_loop.simps) (auto simp: read_def split: if_splits)
  next
    case True
    let ?c' = "c\<lparr>pos := pos c + 1\<rparr>"
    let ?f = "convert_frame (decode (stream c) (pos c))"
    have rd: "read c = (Some (decode (stream c) (pos c)), ?c')" using True by (simp add: read_def)
    have m: "m = length (vframes (stream ?c')) - pos ?c'" using Suc.hyps(2) by simp
    have st: "stream ?c' = stream c" by simp
    note IH = Suc.hyps(1)[OF m, unfolded st]
    have acc': "\<forall>t \<in> set (acc @ [?f]). \<exists>k < length (vframes (stream c)). t = convert_frame (decode (stream c) k)"
      using Suc.prems(2) True by auto
    show ?thesis
    proof (cases "int (length acc) < n")
      case F: False
      then have "frames = acc" using Suc.prems(1) by (subst (asm) sample_loop.simps) simp
      then show ?thesis using Suc.prems(2) by simp
    next
      case T: True
      show ?thesis
      proof (cases "s = 0")
        case True
        then show ?thesis using Suc.prems(1) T rd by (subst (asm) sample_loop.simps) simp
      next
        case s: False
        show ?thesis
        proof (cases "fc mod s = 0")
          case True
          then have "fst (sample_loop n s (acc @ [?f]) (fc + 1) ?c') = Inr frames"
            using Suc.prems(1) T rd s by (subst (asm) sample_loop.simps) simp
          then show ?thesis using IH acc' by blast
        next
          case False
          then have "fst (sample_loop n s acc (fc + 1) ?c') = Inr frames"
            using Suc.prems(1) T rd s by (subst (asm) sample_loop.simps) simp
          then show ?thesis using IH Suc.prems(2) by blast
        qed
      qed
    qed
  qed
qed

lemma pad_frames_members:
  assumes "pad_frames k frames = Inr padded" "\<forall>t \<in> set frames. Q t" "\<And>t. Q t \<Longrightarrow> Q (zeros_like t)"
  shows "\<forall>t \<in> set padded. Q t"
  using assms
proof (induction k frames rule: pad_frames.induct)
  case (1 frames)
  then show ?case by simp
next
  case (2 k frames)
  from "2.prems"(1) have ne: "frames \<noteq> []" by (auto split: if_splits)
  then have "last frames \<in> set frames" by simp
  then have "Q (zeros_like (last frames))" using "2.prems"(2,3) by blast
  then have "\<forall>t \<in> set (frames @ [zeros_like (last frames)]). Q t" using "2.prems"(2) by auto
  moreover have "pad_frames k (frames @ [zeros_like (last frames)]) = Inr padded"
    using "2.prems"(1) ne by simp
  ultimately show ?case using "2.IH"[OF ne] "2.prems"(3) by blast
qed

lemma torch_stack_Inr: "torch_stack ts = Inr clip \<Longrightarrow> clip = ts"
  by (auto simp: torch_stack_def split: list.splits if_splits)

lemma load_video_members:
  assumes "fst (load_video self w p) = Inr clip" "files w p = Some v"
  shows "\<forall>t \<in> set clip. \<exists>k < length (vframes v).
           t = convert_frame (decode v k) \<or> t = zeros_like (convert_frame (decode v k))"
proof -
  let ?Q = "\<lambda>t. \<exists>k < length (vframes v).
           t = convert_frame (decode v k) \<or> t = zeros_like (convert_frame (decode v k))"
  let ?c = "VideoCapture w p"
  have st: "stream ?c = v" using assms(2) by (simp add: VideoCapture_def)
  obtain r c where rc: "sample_loop (num_frames self) (frame_step self) [] 0 ?c = (r, c)"
    by (cases "sample_loop (num_frames self) (frame_step self) [] 0 ?c")
  obtain frames where r: "r = Inr frames"
    using assms(1) rc by (cases r) (simp_all add: load_video_def)
  have "fst (sample_loop (num_frames self) (frame_step self) [] 0 ?c) = Inr frames"
    using rc r by simp
  from sample_loop_members[OF this] have
    "\<forall>t \<in> set frames. \<exists>k < length (vframes v). t = convert_frame (decode v k)"
    unfolding st by simp
  then have fr: "\<forall>t \<in> set frames. ?Q t" by blast
  have z: "?Q (zeros_like t)" if "?Q t" for t
    using that by (auto simp: zeros_like_idem)
  show ?thesis
  proof (cases "int (length frames) < num_frames self")
    case True
    then obtain padded where pd: "pad_frames (nat (num_frames self - int (length frames))) frames = Inr padded"
      and ts: "torch_stack padded = Inr clip"
      using assms(1) rc r by (auto simp: load_video_def Let_def split: sum.splits)
    have "\<forall>t \<in> set padded. ?Q t" using pd fr z by (rule pad_frames_members)
    then show ?thesis using torch_stack_Inr[OF ts] by simp
  next
    case False
    then have "torch_stack frames = Inr clip"
      using assms(1) rc r by (simp add: load_video_def Let_def)
    then show ?thesis using fr torch_stack_Inr by blast
  qed
qed

subsection \<open>The example inputs\<close>

lemma test_frame [simp]:
  "k < len \<Longrightarrow> convert_frame (decode (test_video len) k) =
     [[[real (unat (of_nat (20 + k) :: 8 word))]], [[real (unat (of_nat (10 + k) :: 8 word))]],
      [[real (unat (of_nat k :: 8 word))]]]"
  by (simp add: convert_frame_def decode_def test_video_def to_float_def permute_2_0_1_def
      cvtColor_BGR2RGB_def)

lemma test_world [simp]: "files (world_of v) ''videos/clip.mp4'' = Some v"
  by (simp add: world_of_def)

lemma test_video_length [simp]: "length (vframes (test_video len)) = len"
  by (simp add: test_video_def)

lemma dataset_of_sel [simp]: "num_frames (dataset_of n s) = n" "frame_step (dataset_of n s) = s"
  by (simp_all add: dataset_of_def)

lemma retained_2_2_1: "retained 2 2 (Suc 0) = [0]"
  by (simp add: retained_def)

lemma retained_2_1_1: "retained 2 1 (Suc 0) = [0]"
  by (simp add: retained_def)

subsection \<open>Claims about \<^verbatim>\<open>load_video\<close>\<close>

text \<open>
  Claim C1 says that the clip has exactly \<^verbatim>\<open>num_frames\<close> frames whatever the source, the
  deficit being zero frames, and that no error is raised. The code misses the source with
  no frame: with \<^verbatim>\<open>num_frames = 13\<close> and \<^verbatim>\<open>frame_step = 4\<close> the buffer is empty after the
  loop, and \<^verbatim>\<open>frames[-1]\<close> raises IndexError.
\<close>

theorem load_video_empty_source_raises:
  "fst (load_video (dataset_of 13 4) (world_of (test_video 0)) ''videos/clip.mp4'') = Inl IndexError"
  by (simp add: load_video_def VideoCapture_def sample_loop.simps[of _ _ "[]"] read_def test_video_def
      eval_nat_numeral)

text \<open>
  Claim C2: for a positive clip length and step, and a source of at least
  \<^verbatim>\<open>num_frames * frame_step\<close> frames, the call returns a clip of exactly \<^verbatim>\<open>num_frames\<close>
  frames; frame \<open>k\<close> of the clip is the converted frame at decode position
  \<open>k * frame_step\<close>, and these positions are in range and pairwise distinct.
\<close>

theorem load_video_full_source:
  assumes "0 < num_frames self" "0 < frame_step self" "files w p = Some v"
    and "nat (num_frames self) * nat (frame_step self) \<le> length (vframes v)"
  shows "\<exists>clip. fst (load_video self w p) = Inr clip \<and> length clip = nat (num_frames self) \<and>
       (\<forall>k < nat (num_frames self).
          k * nat (frame_step self) < length (vframes v) \<and>
          clip ! k = convert_frame (decode v (k * nat (frame_step self)))) \<and>
       distinct (map (\<lambda>k. k * nat (frame_step self)) [0..<nat (num_frames self)])"
proof -
  let ?n = "nat (num_frames self)" and ?s = "nat (frame_step self)"
  have s: "0 < ?s" and n: "0 < ?n" using assms(1,2) by simp_all
  have "(?n - 1) * ?s < ?n * ?s" using s n by simp
  then have enough: "(?n - 1) * ?s < length (vframes v)" using assms(4) by (rule less_le_trans)
  have inr: "\<And>k. k < ?n \<Longrightarrow> k * ?s < length (vframes v)"
  proof -
    fix k assume "k < ?n"
    then have "k * ?s < ?n * ?s" using s by simp
    then show "k * ?s < length (vframes v)" using assms(4) by (rule less_le_trans)
  qed
  have d: "distinct (map (\<lambda>k. k * ?s) [0..<?n])"
    using s by (simp add: distinct_map inj_on_def)
  show ?thesis
    using load_video_enough[OF assms(1-3) enough] inr d by simp
qed

theorem load_video_full_source_witness:
  "0 < num_frames (dataset_of 2 2) \<and> 0 < frame_step (dataset_of 2 2) \<and>
   files (world_of (test_video 4)) ''videos/clip.mp4'' = Some (test_video 4) \<and>
   nat (num_frames (dataset_of 2 2)) * nat (frame_step (dataset_of 2 2))
     \<le> length (vframes (test_video 4)) \<and>
   fst (load_video (dataset_of 2 2) (world_of (test_video 4)) ''videos/clip.mp4'') =
     Inr [[[[20]], [[10]], [[0]]], [[[22]], [[12]], [[2]]]]"
proof -
  have h: "0 < num_frames (dataset_of 2 2)" "0 < frame_step (dataset_of 2 2)"
    "files (world_of (test_video 4)) ''videos/clip.mp4'' = Some (test_video 4)"
    "nat (num_frames (dataset_of 2 2)) * nat (frame_step (dataset_of 2 2))
       \<le> length (vframes (test_video 4))"
    by simp_all
  from load_video_full_source[OF h] obtain clip where
    c: "fst (load_video (dataset_of 2 2) (world_of (test_video 4)) ''videos/clip.mp4'') = Inr clip"
    and l: "length clip = 2"
    and k: "\<forall>k<2. clip ! k = convert_frame (decode (test_video 4) (k * 2))"
    by auto
  from l obtain a b where ab: "clip = [a, b]"
    by (auto simp: numeral_2_eq_2 length_Suc_conv)
  from k have "clip ! 0 = convert_frame (decode (test_video 4) 0)"
    "clip ! 1 = convert_frame (decode (test_video 4) 2)" by auto
  then have "clip = [[[[20]], [[10]], [[0]]], [[[22]], [[12]], [[2]]]]" unfolding ab by simp
  with c h show ?thesis by simp
qed

text \<open>
  Claim C3: with \<^verbatim>\<open>num_frames = 13\<close> and \<^verbatim>\<open>frame_step = 4\<close>, a source of exactly 10 frames
  gives a clip of 13 frames: the converted frames at decode positions 0, 4 and 8, in that
  order, followed by 10 zero tensors shaped like the last of them.
\<close>

theorem load_video_13_4_on_10_frames:
  assumes "num_frames self = 13" "frame_step self = 4" "files w p = Some v"
    and "length (vframes v) = 10"
  shows "fst (load_video self w p) =
     Inr ([convert_frame (decode v 0), convert_frame (decode v 4), convert_frame (decode v 8)] @
          replicate 10 (zeros_like (convert_frame (decode v 8))))"
proof -
  have u: "[0..<10] = [0, 1, 2, 3, 4, 5, 6, 7, 8, 9::nat]" by code_simp
  have k: "retained 13 4 10 = [0, 4, 8]" unfolding retained_def u by simp
  have ne: "vframes v \<noteq> []" using assms(4) by auto
  have "0 < num_frames self" "0 < frame_step self" using assms(1,2) by simp_all
  from load_video_result[OF this assms(3)] show ?thesis
    unfolding assms(1,2,4) k using ne by simp
qed

theorem load_video_13_4_on_10_frames_witness:
  "num_frames (dataset_of 13 4) = 13 \<and> frame_step (dataset_of 13 4) = 4 \<and>
   files (world_of (test_video 10)) ''videos/clip.mp4'' = Some (test_video 10) \<and>
   length (vframes (test_video 10)) = 10 \<and>
   fst (load_video (dataset_of 13 4) (world_of (test_video 10)) ''videos/clip.mp4'') =
     Inr ([[[[20]], [[10]], [[0]]], [[[24]], [[14]], [[4]]], [[[28]], [[18]], [[8]]]] @
          replicate 10 [[[0]], [[0]], [[0]]])"
proof -
  have h: "num_frames (dataset_of 13 4) = 13" "frame_step (dataset_of 13 4) = 4"
    "files (world_of (test_video 10)) ''videos/clip.mp4'' = Some (test_video 10)"
    "length (vframes (test_video 10)) = 10"
    by simp_all
  from load_video_13_4_on_10_frames[OF h] show ?thesis by (simp add: zeros_like_def)
qed

text \<open>
  Claim C4, as amended: whenever the sampling loop does not raise, which is the case for
  every step other than zero, the call has created one handle and has released it by the
  time it ends: on the normal return, and on the IndexError and RuntimeError raised after
  the loop. The release is a plain call after the loop, so when the loop itself raises,
  as it does for a zero step on a source with a frame, the handle stays open.
\<close>

theorem load_video_releases_after_loop:
  assumes "frame_step self \<noteq> 0 \<or> fst (load_video self w p) \<noteq> Inl ZeroDivisionError"
  shows "\<exists>c. handles (snd (load_video self w p)) = handles w @ [c] \<and> \<not> opened c"
proof -
  obtain r c where rc: "sample_loop (num_frames self) (frame_step self) [] 0 (VideoCapture w p) = (r, c)"
    by (cases "sample_loop (num_frames self) (frame_step self) [] 0 (VideoCapture w p)")
  show ?thesis
  proof (cases r)
    case (Inl e)
    then have e: "e = ZeroDivisionError"
      using sample_loop_error[of "num_frames self" "frame_step self" "[]" 0 "VideoCapture w p" e] rc
      by simp
    then have raised: "fst (load_video self w p) = Inl ZeroDivisionError"
      using rc Inl by (simp add: load_video_def)
    have "frame_step self = 0"
    proof (rule ccontr)
      assume "frame_step self \<noteq> 0"
      then obtain frames where
        "fst (sample_loop (num_frames self) (frame_step self) [] 0 (VideoCapture w p)) = Inr frames"
        using sample_loop_nonzero_step by blast
      then show False using rc Inl by simp
    qed
    with raised assms show ?thesis by simp
  next
    case (Inr frames)
    then have "handles (snd (load_video self w p)) = handles w @ [release c]"
      using rc by (simp add: load_video_def Let_def split: sum.splits)
    then show ?thesis by (simp add: release_def)
  qed
qed

theorem load_video_releases_after_loop_witness:
  "(frame_step (dataset_of 13 4) \<noteq> 0 \<and>
    fst (load_video (dataset_of 13 4) (world_of (test_video 10)) ''videos/clip.mp4'')
      \<noteq> Inl ZeroDivisionError) \<and>
   length (handles (snd (load_video (dataset_of 13 4) (world_of (test_video 10)) ''videos/clip.mp4''))) = 1 \<and>
   \<not> opened (last (handles (snd (load_video (dataset_of 13 4) (world_of (test_video 10)) ''videos/clip.mp4''))))"
proof -
  have s: "frame_step (dataset_of 13 4) \<noteq> 0" by simp
  have "vframes (test_video 10) \<noteq> []" by (simp add: test_video_def)
  then have h: "fst (load_video (dataset_of 13 4) (world_of (test_video 10)) ''videos/clip.mp4'')
     \<noteq> Inl ZeroDivisionError"
    using load_video_result[of "dataset_of 13 4" "world_of (test_video 10)" "''videos/clip.mp4''"
        "test_video 10"]
    by simp
  from load_video_releases_after_loop[of "dataset_of 13 4" "world_of (test_video 10)"
      "''videos/clip.mp4''", OF disjI1, OF s] s h
  show ?thesis by (auto simp: world_of_def)
qed

theorem load_video_zero_step_leaks_handle:
  "fst (load_video (dataset_of 13 0) (world_of (test_video 10)) ''videos/clip.mp4'')
     = Inl ZeroDivisionError \<and>
   opened (last (handles (snd (load_video (dataset_of 13 0) (world_of (test_video 10)) ''videos/clip.mp4''))))"
  by (simp add: load_video_def VideoCapture_def sample_loop.simps[of _ 0] read_def)

text \<open>
  Claim C5: whatever the native channel order of the source, every tensor of a clip that
  \<^verbatim>\<open>load_video\<close> returns has the shape 3 x height x width, channel first, and is either
  the tensor that holds the red, the green and the blue plane, in this order, of one of
  the frames of the source, or the zero frame made from such a tensor.
\<close>

theorem load_video_rgb:
  assumes "files w p = Some (captured native h wd scenes)"
    and "fst (load_video self w p) = Inr clip"
  shows "\<forall>t \<in> set clip.
           shape t = replicate 3 (replicate h wd) \<and>
           (\<exists>k < length scenes.
              t = rgb_tensor h wd (scenes ! k) \<or> t = zeros_like (rgb_tensor h wd (scenes ! k)))"
proof
  fix t assume "t \<in> set clip"
  with load_video_members[OF assms(2,1)] obtain k where k: "k < length scenes"
    and t: "t = convert_frame (decode (captured native h wd scenes) k) \<or>
            t = zeros_like (convert_frame (decode (captured native h wd scenes) k))"
    by (auto simp: captured_sel)
  have c: "convert_frame (decode (captured native h wd scenes) k) = rgb_tensor h wd (scenes ! k)"
    using k by (rule convert_frame_captured)
  from t c have t': "t = rgb_tensor h wd (scenes ! k) \<or> t = zeros_like (rgb_tensor h wd (scenes ! k))"
    by simp
  then have "shape t = replicate 3 (replicate h wd)"
    by (auto simp: shape_rgb_tensor shape_zeros_like)
  with t' k show "shape t = replicate 3 (replicate h wd) \<and>
           (\<exists>k < length scenes.
              t = rgb_tensor h wd (scenes ! k) \<or> t = zeros_like (rgb_tensor h wd (scenes ! k)))"
    by blast
qed

theorem load_video_rgb_witness:
  "files (world_of (captured RGB 1 1 [orange])) ''videos/clip.mp4'' = Some (captured RGB 1 1 [orange]) \<and>
   fst (load_video (dataset_of 2 2) (world_of (captured RGB 1 1 [orange])) ''videos/clip.mp4'') =
     Inr [[[[255]], [[128]], [[0]]], [[[0]], [[0]], [[0]]]] \<and>
   rgb_tensor 1 1 orange = [[[255]], [[128]], [[0]]] \<and>
   shape [[[255]], [[128]], [[0]]] = replicate 3 (replicate 1 1) \<and>
   shape [[[0]], [[0]], [[0]]] = replicate 3 (replicate 1 1)"
proof -
  let ?v = "captured RGB 1 1 [orange]"
  have f: "files (world_of ?v) ''videos/clip.mp4'' = Some ?v" by simp
  have ne: "vframes ?v \<noteq> []" and len: "length (vframes ?v) = Suc 0" by (simp_all add: captured_def)
  have cf: "convert_frame (decode ?v 0) = [[[255]], [[128]], [[0]]]"
    using convert_frame_captured[of 0 "[orange]" RGB 1 1]
    by (simp add: rgb_tensor_def plane_def orange_def)
  have r: "fst (load_video (dataset_of 2 2) (world_of ?v) ''videos/clip.mp4'') =
     Inr [[[[255]], [[128]], [[0]]], [[[0]], [[0]], [[0]]]]"
    using load_video_result[of "dataset_of 2 2" "world_of ?v" "''videos/clip.mp4''" ?v] ne len cf
    by (simp add: retained_2_2_1 zeros_like_def)
  have rt: "rgb_tensor 1 1 orange = [[[255]], [[128]], [[0]]]"
    by (simp add: rgb_tensor_def plane_def orange_def)
  from load_video_rgb[OF f r] have
    "shape [[[255]], [[128]], [[0]]] = replicate 3 (replicate 1 1)"
    "shape [[[0::real]], [[0]], [[0]]] = replicate 3 (replicate 1 1)"
    by simp_all
  with f r rt show ?thesis by simp
qed

text \<open>
  Claim C6: sampling is deterministic. A call leaves the video files as they are, and a
  second call with the same dataset and path, in the world the first one left behind,
  returns the same clip (or raises the same error).
\<close>

theorem load_video_deterministic:
  "files (snd (load_video self w p)) = files w \<and>
   fst (load_video self (snd (load_video self w p)) p) = fst (load_video self w p)"
proof -
  obtain h where h: "snd (load_video self w p) = w\<lparr>handles := h\<rparr>"
    using load_video_world by blast
  show ?thesis unfolding h by (simp add: load_video_handles)
qed

text \<open>
  Claim C9: when the source yields no decodable frame and \<^verbatim>\<open>num_frames\<close> is positive, the
  call raises IndexError, whatever the step; it returns no clip.
\<close>

theorem load_video_no_frames:
  assumes "0 < num_frames self" "vframes (stream (VideoCapture w p)) = []"
  shows "fst (load_video self w p) = Inl IndexError"
proof -
  let ?c = "VideoCapture w p"
  have rd: "read ?c = (None, ?c)" using assms(2) by (simp add: read_def)
  have "sample_loop (num_frames self) (frame_step self) [] 0 ?c = (Inr [], ?c)"
    using assms(1) rd by (subst sample_loop.simps) simp
  then have "fst (sample_loop (num_frames self) (frame_step self) [] 0 ?c) = Inr []" by simp
  note after = load_video_after_loop[OF this]
  obtain m where m: "nat (num_frames self) = Suc m" using assms(1) by (cases "nat (num_frames self)") auto
  show ?thesis unfolding after using assms(1) m by simp
qed

theorem load_video_no_frames_witness:
  "0 < num_frames (dataset_of 13 4) \<and>
   vframes (stream (VideoCapture (world_of (test_video 0)) ''videos/clip.mp4'')) = [] \<and>
   fst (load_video (dataset_of 13 4) (world_of (test_video 0)) ''videos/clip.mp4'') = Inl IndexError"
proof -
  have h: "0 < num_frames (dataset_of 13 4)"
    "vframes (stream (VideoCapture (world_of (test_video 0)) ''videos/clip.mp4'')) = []"
    by (simp_all add: VideoCapture_def test_video_def)
  from load_video_no_frames[OF h] h show ?thesis by simp
qed

text \<open>
  Claim C10 says that a source of \<^verbatim>\<open>(num_frames - 1) * frame_step + 1\<close> frames is
  sufficient, and that this is a strictly weaker requirement than
  \<^verbatim>\<open>num_frames * frame_step\<close> frames for every positive step. The first part holds. The
  second fails for \<^verbatim>\<open>frame_step = 1\<close>, where the two bounds are the same number and a
  source with one frame less is padded. As amended: for a positive clip length and step, a
  source of at least \<^verbatim>\<open>(num_frames - 1) * frame_step + 1\<close> frames already gives
  \<^verbatim>\<open>num_frames\<close> converted frames and no padding; this bound never exceeds
  \<^verbatim>\<open>num_frames * frame_step\<close>, and is strictly smaller exactly when the step exceeds 1.
\<close>

theorem load_video_minimal_source:
  assumes "0 < num_frames self" "0 < frame_step self" "files w p = Some v"
    and "(nat (num_frames self) - 1) * nat (frame_step self) + 1 \<le> length (vframes v)"
  shows "fst (load_video self w p) =
       Inr (map (\<lambda>k. convert_frame (decode v (k * nat (frame_step self))))
              [0..<nat (num_frames self)]) \<and>
     (nat (num_frames self) - 1) * nat (frame_step self) + 1
        \<le> nat (num_frames self) * nat (frame_step self) \<and>
     ((nat (num_frames self) - 1) * nat (frame_step self) + 1
          < nat (num_frames self) * nat (frame_step self) \<longleftrightarrow> 1 < frame_step self)"
proof -
  let ?n = "nat (num_frames self)" and ?s = "nat (frame_step self)"
  obtain m where m: "?n = Suc m" using assms(1) by (cases ?n) auto
  have s: "0 < ?s" using assms(2) by simp
  have enough: "(?n - 1) * ?s < length (vframes v)" using assms(4) by simp
  have le: "(?n - 1) * ?s + 1 \<le> ?n * ?s" using s by (simp add: m)
  have lt: "(?n - 1) * ?s + 1 < ?n * ?s \<longleftrightarrow> 1 < frame_step self"
    using s by (auto simp: m)
  show ?thesis using load_video_enough[OF assms(1-3) enough] le lt by blast
qed

theorem load_video_minimal_source_witness:
  "0 < num_frames (dataset_of 2 2) \<and> 0 < frame_step (dataset_of 2 2) \<and>
   files (world_of (test_video 3)) ''videos/clip.mp4'' = Some (test_video 3) \<and>
   (nat (num_frames (dataset_of 2 2)) - 1) * nat (frame_step (dataset_of 2 2)) + 1
     \<le> length (vframes (test_video 3)) \<and>
   \<not> nat (num_frames (dataset_of 2 2)) * nat (frame_step (dataset_of 2 2))
     \<le> length (vframes (test_video 3)) \<and>
   fst (load_video (dataset_of 2 2) (world_of (test_video 3)) ''videos/clip.mp4'') =
     Inr [[[[20]], [[10]], [[0]]], [[[22]], [[12]], [[2]]]]"
proof -
  have h: "0 < num_frames (dataset_of 2 2)" "0 < frame_step (dataset_of 2 2)"
    "files (world_of (test_video 3)) ''videos/clip.mp4'' = Some (test_video 3)"
    "(nat (num_frames (dataset_of 2 2)) - 1) * nat (frame_step (dataset_of 2 2)) + 1
       \<le> length (vframes (test_video 3))"
    by simp_all
  have u: "[0..<2] = [0, 1::nat]" by code_simp
  from load_video_minimal_source[OF h] show ?thesis by (simp add: u)
qed

theorem load_video_step_1_needs_num_frames:
  "0 < num_frames (dataset_of 2 1) \<and> 0 < frame_step (dataset_of 2 1) \<and>
   (nat (num_frames (dataset_of 2 1)) - 1) * nat (frame_step (dataset_of 2 1)) + 1 =
     nat (num_frames (dataset_of 2 1)) * nat (frame_step (dataset_of 2 1)) \<and>
   length (vframes (test_video 1)) <
     nat (num_frames (dataset_of 2 1)) * nat (frame_step (dataset_of 2 1)) \<and>
   fst (load_video (dataset_of 2 1) (world_of (test_video 1)) ''videos/clip.mp4'') =
     Inr [[[[20]], [[10]], [[0]]], [[[0]], [[0]], [[0]]]]"
proof -
  have h: "0 < num_frames (dataset_of 2 1)" "0 < frame_step (dataset_of 2 1)"
    "files (world_of (test_video 1)) ''videos/clip.mp4'' = Some (test_video 1)"
    by simp_all
  have ne: "vframes (test_video 1) \<noteq> []" by (simp add: test_video_def)
  from load_video_result[OF h] ne show ?thesis
    by (simp add: retained_2_1_1 zeros_like_def)
qed

section \<open>Properties of the post-processing\<close>

subsection \<open>The pattern\<close>

lemma lit_Some: "lit p s = Some r \<longleftrightarrow> s = p @ r"
  by (auto simp: lit_def) (metis append_take_drop_id)

lemma cls_Some: "cls P s = Some (c, r) \<longleftrightarrow> s = c # r \<and> P c"
  by (cases s) auto

lemma rep_Some: "rep n P s = Some (cs, r) \<longleftrightarrow> s = cs @ r \<and> length cs = n \<and> list_all P cs"
proof (induction n arbitrary: s cs)
  case 0
  then show ?case by auto
next
  case (Suc n)
  show ?case
  proof (cases s)
    case Nil
    then show ?thesis by auto
  next
    case (Cons c s')
    show ?thesis
    proof (cases cs)
      case Nil
      then show ?thesis using Cons by (auto split: option.splits)
    next
      case (Cons d ds)
      then show ?thesis using \<open>s = c # s'\<close> Suc.IH[of s' ds]
        by (auto split: option.splits)
    qed
  qed
qed

lemma match_here_Some:
  "match_here decimal s = Some g \<longleftrightarrow>
     (\<exists>ds c r. s = str ''/videos/D'' @ ds @ [c] @ str ''.mp4'' @ r \<and> length ds = 4 \<and>
        list_all decimal ds \<and> is_region c \<and> g = [c])"
proof
  assume "match_here decimal s = Some g"
  then show "\<exists>ds c r. s = str ''/videos/D'' @ ds @ [c] @ str ''.mp4'' @ r \<and> length ds = 4 \<and>
        list_all decimal ds \<and> is_region c \<and> g = [c]"
    unfolding match_here_def
    by (fastforce simp: lit_Some cls_Some rep_Some split: option.splits)
next
  assume "\<exists>ds c r. s = str ''/videos/D'' @ ds @ [c] @ str ''.mp4'' @ r \<and> length ds = 4 \<and>
        list_all decimal ds \<and> is_region c \<and> g = [c]"
  then obtain ds c r where s: "s = str ''/videos/D'' @ ds @ [c] @ str ''.mp4'' @ r"
    and ds: "length ds = 4" "list_all decimal ds" and c: "is_region c" and g: "g = [c]"
    by blast
  have 1: "lit (str ''/videos/D'') s = Some (ds @ [c] @ str ''.mp4'' @ r)"
    unfolding lit_Some s by simp
  have 2: "rep 4 decimal (ds @ [c] @ str ''.mp4'' @ r) = Some (ds, [c] @ str ''.mp4'' @ r)"
    unfolding rep_Some using ds by simp
  have 3: "cls is_region ([c] @ str ''.mp4'' @ r) = Some (c, str ''.mp4'' @ r)"
    unfolding cls_Some using c by simp
  have 4: "lit (str ''.mp4'') (str ''.mp4'' @ r) = Some r"
    unfolding lit_Some by simp
  show "match_here decimal s = Some g"
    using 1 2 3 4 unfolding match_here_def g by simp
qed

lemma split_18:
  "s = take 9 s @ take 4 (drop 9 s) @ take 1 (drop 13 s) @ take 4 (drop 14 s) @ drop 18 s"
proof -
  have "take 18 s = take 9 s @ take 4 (drop 9 s) @ take 1 (drop 13 s) @ take 4 (drop 14 s)"
    using take_add[of 9 4 s] take_add[of 13 1 s] take_add[of 14 4 s] by simp
  then show ?thesis using append_take_drop_id[of 18 s] by simp
qed

lemma match_here_segment:
  "match_here decimal (drop i url) = Some [c] \<longleftrightarrow> segment_at decimal url i c"
proof -
  define s where "s = drop i url"
  have seg: "segment_at decimal url i c \<longleftrightarrow>
      take 9 s = str ''/videos/D'' \<and> length (take 4 (drop 9 s)) = 4 \<and>
      list_all decimal (take 4 (drop 9 s)) \<and>
      take 1 (drop 13 s) = [c] \<and> is_region c \<and> take 4 (drop 14 s) = str ''.mp4''"
    unfolding segment_at_def Let_def s_def is_region_def by simp
  have l9: "length (str ''/videos/D'') = 9" and l4: "length (str ''.mp4'') = 4"
    by (simp_all add: str_def)
  have "match_here decimal s = Some [c] \<longleftrightarrow> segment_at decimal url i c"
  proof
    assume "match_here decimal s = Some [c]"
    then obtain ds r where s: "s = str ''/videos/D'' @ ds @ [c] @ str ''.mp4'' @ r"
      and ds: "length ds = 4" "list_all decimal ds" and c: "is_region c"
      unfolding match_here_Some by auto
    show "segment_at decimal url i c" unfolding seg s using ds c l9 l4 by simp
  next
    assume "segment_at decimal url i c"
    then have a: "take 9 s = str ''/videos/D''" "length (take 4 (drop 9 s)) = 4"
      "list_all decimal (take 4 (drop 9 s))" "take 1 (drop 13 s) = [c]" "is_region c"
      "take 4 (drop 14 s) = str ''.mp4''"
      unfolding seg by simp_all
    have "s = str ''/videos/D'' @ take 4 (drop 9 s) @ [c] @ str ''.mp4'' @ drop 18 s"
      using split_18[of s] unfolding a(1,4,6) .
    then show "match_here decimal s = Some [c]"
      unfolding match_here_Some using a(2,3,5) by blast
  qed
  then show ?thesis unfolding s_def .
qed

lemma match_here_Nil: "match_here decimal [] = None"
  by (simp add: match_here_def lit_def str_def)

lemma re_search_Some:
  "re_search decimal s = Some g \<longleftrightarrow>
     (\<exists>i. match_here decimal (drop i s) = Some g \<and> (\<forall>j<i. match_here decimal (drop j s) = None))"
proof (induction s)
  case Nil
  then show ?case by (simp add: match_here_Nil)
next
  case (Cons c s)
  show ?case
  proof (cases "match_here decimal (c # s)")
    case (Some g')
    have "(\<exists>i. match_here decimal (drop i (c # s)) = Some g \<and> (\<forall>j<i. match_here decimal (drop j (c # s)) = None))
        \<longleftrightarrow> g' = g"
    proof
      assume "\<exists>i. match_here decimal (drop i (c # s)) = Some g \<and> (\<forall>j<i. match_here decimal (drop j (c # s)) = None)"
      then obtain i where i: "match_here decimal (drop i (c # s)) = Some g"
        "\<forall>j<i. match_here decimal (drop j (c # s)) = None" by blast
      have "i = 0"
      proof (rule ccontr)
        assume "i \<noteq> 0"
        then have "match_here decimal (drop 0 (c # s)) = None" using i(2) by blast
        then show False using Some by simp
      qed
      then show "g' = g" using i(1) Some by simp
    next
      assume "g' = g"
      then have "match_here decimal (drop 0 (c # s)) = Some g \<and> (\<forall>j<0. match_here decimal (drop j (c # s)) = None)"
        using Some by simp
      then show "\<exists>i. match_here decimal (drop i (c # s)) = Some g \<and> (\<forall>j<i. match_here decimal (drop j (c # s)) = None)"
        by blast
    qed
    then show ?thesis using Some by simp
  next
    case None
    have "(\<exists>i. match_here decimal (drop i (c # s)) = Some g \<and> (\<forall>j<i. match_here decimal (drop j (c # s)) = None))
        \<longleftrightarrow> (\<exists>i. match_here decimal (drop i s) = Some g \<and> (\<forall>j<i. match_here decimal (drop j s) = None))"
    proof
      assume "\<exists>i. match_here decimal (drop i (c # s)) = Some g \<and> (\<forall>j<i. match_here decimal (drop j (c # s)) = None)"
      then obtain i where i: "match_here decimal (drop i (c # s)) = Some g"
        "\<forall>j<i. match_here decimal (drop j (c # s)) = None" by blast
      obtain i' where i': "i = Suc i'" using i(1) None by (cases i) auto
      have "match_here decimal (drop i' s) = Some g" using i(1) i' by simp
      moreover have "\<forall>j<i'. match_here decimal (drop j s) = None"
      proof (intro allI impI)
        fix j assume "j < i'"
        then have "Suc j < i" using i' by simp
        then have "match_here decimal (drop (Suc j) (c # s)) = None" using i(2) by blast
        then show "match_here decimal (drop j s) = None" by simp
      qed
      ultimately show "\<exists>i. match_here decimal (drop i s) = Some g \<and> (\<forall>j<i. match_here decimal (drop j s) = None)"
        by blast
    next
      assume "\<exists>i. match_here decimal (drop i s) = Some g \<and> (\<forall>j<i. match_here decimal (drop j s) = None)"
      then obtain i where i: "match_here decimal (drop i s) = Some g"
        "\<forall>j<i. match_here decimal (drop j s) = None" by blast
      have "match_here decimal (drop (Suc i) (c # s)) = Some g" using i(1) by simp
      moreover have "\<forall>j<Suc i. match_here decimal (drop j (c # s)) = None"
      proof (intro allI impI)
        fix j assume "j < Suc i"
        then show "match_here decimal (drop j (c # s)) = None"
          using None i(2) by (cases j) auto
      qed
      ultimately show "\<exists>i. match_here decimal (drop i (c # s)) = Some g \<and> (\<forall>j<i. match_here decimal (drop j (c # s)) = None)"
        by blast
    qed
    then show ?thesis using None Cons.IH by simp
  qed
qed

lemma re_search_None: "re_search decimal s = None \<longleftrightarrow> (\<forall>i. match_here decimal (drop i s) = None)"
proof (induction s)
  case Nil
  then show ?case by (simp add: match_here_Nil)
next
  case (Cons c s)
  have "(\<forall>i. match_here decimal (drop i (c # s)) = None) \<longleftrightarrow>
      match_here decimal (c # s) = None \<and> (\<forall>i. match_here decimal (drop i s) = None)"
  proof
    assume a: "\<forall>i. match_here decimal (drop i (c # s)) = None"
    have "match_here decimal (drop 0 (c # s)) = None" using a by blast
    moreover have "match_here decimal (drop i s) = None" for i
      using a[rule_format, of "Suc i"] by simp
    ultimately show "match_here decimal (c # s) = None \<and> (\<forall>i. match_here decimal (drop i s) = None)" by simp
  next
    assume a: "match_here decimal (c # s) = None \<and> (\<forall>i. match_here decimal (drop i s) = None)"
    show "\<forall>i. match_here decimal (drop i (c # s)) = None"
    proof
      fix i show "match_here decimal (drop i (c # s)) = None" using a by (cases i) auto
    qed
  qed
  then show ?case using Cons.IH by (simp split: option.splits)
qed

lemma match_here_None_segment:
  "match_here decimal (drop i url) = None \<longleftrightarrow> (\<forall>c. \<not> segment_at decimal url i c)"
proof -
  have "match_here decimal (drop i url) \<noteq> None \<longleftrightarrow> (\<exists>c. segment_at decimal url i c)"
  proof
    assume "match_here decimal (drop i url) \<noteq> None"
    then obtain g where "match_here decimal (drop i url) = Some g" by auto
    moreover then obtain c where "g = [c]" unfolding match_here_Some by auto
    ultimately show "\<exists>c. segment_at decimal url i c" using match_here_segment by blast
  next
    assume "\<exists>c. segment_at decimal url i c"
    then show "match_here decimal (drop i url) \<noteq> None" using match_here_segment[of decimal i url] by auto
  qed
  then show ?thesis by blast
qed

subsection \<open>The table\<close>

lemma apply_extract_Str:
  "apply_extract d (map Str urls) = Inr (map (extract_region_from_url d) urls)"
  by (induction urls) simp_all

lemma zip3_map:
  "zip (map a xs) (zip (map b xs) (map c xs)) = map (\<lambda>x. (a x, b x, c x)) xs"
  by (induction xs) simp_all

lemma process_frame_rows:
  assumes "string_column lib (map fst csv)" "string_column lib (map snd csv)"
    and "\<forall>(t, v) \<in> set csv. \<not> na_value lib v"
  shows "process_frame lib csv =
     Inr (map (\<lambda>(t, v).
        \<lparr>Text = (if na_value lib t then NaN else Str t),
         Video_URL = Str (str ''https://qipedc.moet.gov.vn'' @ v),
         Region = extract_region_from_url (decimal_digit lib) (str ''https://qipedc.moet.gov.vn'' @ v),
         Label =
           (if na_value lib t then NaN
            else Str (str_replace (of_char CHR '' '') (of_char CHR ''_'') t @
              fillna [] (extract_region_from_url (decimal_digit lib)
                (str ''https://qipedc.moet.gov.vn'' @ v))))\<rparr>) csv)"
proof -
  let ?p = "str ''https://qipedc.moet.gov.vn''"
  have tc: "read_column lib (map fst csv) =
      Strings (map (\<lambda>x. if na_value lib (fst x) then NaN else Str (fst x)) csv)"
    using assms(1) by (simp add: read_column_def comp_def)
  have "map (\<lambda>f. if na_value lib f then NaN else Str f) (map snd csv) = map (\<lambda>x. Str (snd x)) csv"
    using assms(3) by (auto simp: case_prod_unfold)
  then have vc: "read_column lib (map snd csv) = Strings (map (\<lambda>x. Str (snd x)) csv)"
    using assms(2) by (simp add: read_column_def)
  have urls: "add_prefix ?p (Strings (map (\<lambda>x. Str (snd x)) csv)) =
      Inr (map (\<lambda>x. Str (?p @ snd x)) csv)"
    by (simp add: add_prefix_def comp_def)
  have regions: "apply_extract (decimal_digit lib) (map (\<lambda>x. Str (?p @ snd x)) csv) =
      Inr (map (\<lambda>x. extract_region_from_url (decimal_digit lib) (?p @ snd x)) csv)"
    using apply_extract_Str[of "decimal_digit lib" "map (\<lambda>x. ?p @ snd x) csv"]
    by (simp add: comp_def)
  have z: "zip (map (\<lambda>x. if na_value lib (fst x) then NaN else Str (fst x)) csv)
        (zip (map (\<lambda>x. Str (?p @ snd x)) csv)
          (map (\<lambda>x. extract_region_from_url (decimal_digit lib) (?p @ snd x)) csv)) =
      map (\<lambda>x. (if na_value lib (fst x) then NaN else Str (fst x), Str (?p @ snd x),
          extract_region_from_url (decimal_digit lib) (?p @ snd x))) csv"
    by (rule zip3_map)
  show ?thesis
    unfolding process_frame_def Let_def tc vc urls
    by (simp add: regions z comp_def case_prod_unfold add_cell_def cong: if_cong)
qed

lemma sort_values_exists: "\<exists>out. sort_values df out"
proof -
  have "sort_values df (sort_key (\<lambda>r. text_key (Text r)) df)"
    by (simp add: sort_values_def)
  then show ?thesis ..
qed

lemma process_data_Inr:
  "process_frame lib csv = Inr df \<Longrightarrow>
     process_data lib csv res \<longleftrightarrow> (\<exists>out. res = Inr out \<and> sort_values df out)"
  by (cases res) (simp_all add: process_data_def)

lemma example_library_sel [simp]:
  "decimal_digit example_library = example_decimal"
  "na_value example_library = example_na"
  "string_column example_library = example_string_column"
  by (simp_all add: example_library_def)

subsection \<open>Claims about the post-processing\<close>

text \<open>
  Claim C7: for every string, \<^verbatim>\<open>extract_region_from_url\<close> returns \<^verbatim>\<open>None\<close> exactly when
  no index of the string starts a segment made of \<^verbatim>\<open>/videos/D\<close>, four digits, one of the
  letters B, T, N and \<^verbatim>\<open>.mp4\<close>; and it returns \<open>g\<close> exactly when \<open>g\<close> is the one-letter
  string holding the letter of the leftmost such segment. A digit is a character that
  \<^verbatim>\<open>\d\<close> matches.
\<close>

theorem extract_region_from_url_spec:
  "(extract_region_from_url decimal url = None \<longleftrightarrow> (\<forall>i c. \<not> segment_at decimal url i c)) \<and>
   (extract_region_from_url decimal url = Some g \<longleftrightarrow>
      (\<exists>i c. g = [c] \<and> c \<in> set (str ''BTN'') \<and> segment_at decimal url i c \<and>
         (\<forall>j<i. \<forall>c'. \<not> segment_at decimal url j c')))"
proof -
  have e: "extract_region_from_url decimal url = re_search decimal url"
    by (simp add: extract_region_from_url_def split: option.splits)
  have n: "extract_region_from_url decimal url = None \<longleftrightarrow> (\<forall>i c. \<not> segment_at decimal url i c)"
    unfolding e re_search_None match_here_None_segment ..
  have btn: "segment_at decimal url i c \<Longrightarrow> c \<in> set (str ''BTN'')" for i c
    by (simp add: segment_at_def Let_def)
  have s: "extract_region_from_url decimal url = Some g \<longleftrightarrow>
      (\<exists>i c. g = [c] \<and> c \<in> set (str ''BTN'') \<and> segment_at decimal url i c \<and>
         (\<forall>j<i. \<forall>c'. \<not> segment_at decimal url j c'))"
  proof
    assume "extract_region_from_url decimal url = Some g"
    then obtain i where i: "match_here decimal (drop i url) = Some g"
      "\<forall>j<i. match_here decimal (drop j url) = None"
      unfolding e re_search_Some by blast
    from i(1) obtain c where g: "g = [c]" unfolding match_here_Some by auto
    have "segment_at decimal url i c" using i(1) g match_here_segment by blast
    moreover have "\<forall>j<i. \<forall>c'. \<not> segment_at decimal url j c'"
      using i(2) match_here_None_segment by blast
    ultimately show "\<exists>i c. g = [c] \<and> c \<in> set (str ''BTN'') \<and> segment_at decimal url i c \<and>
         (\<forall>j<i. \<forall>c'. \<not> segment_at decimal url j c')"
      using g btn by blast
  next
    assume "\<exists>i c. g = [c] \<and> c \<in> set (str ''BTN'') \<and> segment_at decimal url i c \<and>
         (\<forall>j<i. \<forall>c'. \<not> segment_at decimal url j c')"
    then obtain i c where g: "g = [c]" and seg: "segment_at decimal url i c"
      and first: "\<forall>j<i. \<forall>c'. \<not> segment_at decimal url j c'" by blast
    have "match_here decimal (drop i url) = Some g" using seg g match_here_segment by blast
    moreover have "\<forall>j<i. match_here decimal (drop j url) = None"
      using first match_here_None_segment by blast
    ultimately show "extract_region_from_url decimal url = Some g"
      unfolding e re_search_Some by blast
  qed
  from n s show ?thesis ..
qed

theorem extract_region_from_url_spec_witness:
  "extract_region_from_url example_decimal
     (str ''https://qipedc.moet.gov.vn/videos/D0001B.mp4?autoplay=true'') = Some (str ''B'') \<and>
   (\<exists>i. segment_at example_decimal
     (str ''https://qipedc.moet.gov.vn/videos/D0001B.mp4?autoplay=true'') i 66) \<and>
   extract_region_from_url example_decimal
     (str ''/videos/D'' @ [1633, 1634, 1635, 1636] @ str ''T.mp4'') = Some (str ''T'') \<and>
   extract_region_from_url example_decimal
     (str ''https://qipedc.moet.gov.vn/videos/W0003.mp4?autoplay=true'') = None \<and>
   \<not> segment_at example_decimal
     (str ''https://qipedc.moet.gov.vn/videos/W0003.mp4?autoplay=true'') 26 66"
proof -
  let ?u1 = "str ''https://qipedc.moet.gov.vn/videos/D0001B.mp4?autoplay=true''"
  let ?u2 = "str ''https://qipedc.moet.gov.vn/videos/W0003.mp4?autoplay=true''"
  have 1: "extract_region_from_url example_decimal ?u1 = Some (str ''B'')"
    by code_simp
  have 2: "extract_region_from_url example_decimal ?u2 = None"
    by code_simp
  have 5: "extract_region_from_url example_decimal
     (str ''/videos/D'' @ [1633, 1634, 1635, 1636] @ str ''T.mp4'') = Some (str ''T'')"
    by code_simp
  have b: "str ''B'' = [66]" by (simp add: str_def)
  note spec1 = extract_region_from_url_spec[of example_decimal ?u1 "str ''B''",
      THEN conjunct2, THEN iffD1, OF 1]
  then obtain i c where "str ''B'' = [c]" "segment_at example_decimal ?u1 i c" by blast
  then have 3: "\<exists>i. segment_at example_decimal ?u1 i 66" unfolding b by auto
  note spec2 = extract_region_from_url_spec[of example_decimal ?u2, THEN conjunct1, THEN iffD1, OF 2]
  then have 4: "\<not> segment_at example_decimal ?u2 26 66"
    by (rule allE) (erule allE)
  from 1 2 3 4 5 show ?thesis by (intro conjI)
qed

text \<open>
  Claim C8 says that every row of the scraped table gets the label made of its text, with
  underscores for spaces, and its region code. The code reads the table with
  \<^verbatim>\<open>pd.read_csv\<close>, which takes a text such as \<^verbatim>\<open>NA\<close> for a missing value: the row's
  \<^verbatim>\<open>Text\<close> is \<^verbatim>\<open>NaN\<close> and so is its \<^verbatim>\<open>Label\<close>, not \<^verbatim>\<open>NAB\<close>. As amended: for a table
  whose two columns are read as columns of strings and whose video fields are not read as
  missing, \<^verbatim>\<open>process_data\<close> returns a table, and every table it may return has one row
  for each row of the input, with the text as \<^verbatim>\<open>pd.read_csv\<close> reads it and the prefix
  \<^verbatim>\<open>https://qipedc.moet.gov.vn\<close> before the stored video path; in every row the region is
  extracted from the video URL, and the label is the text with every space replaced by an
  underscore, followed by the region code or by nothing when there is none; the label of
  a row whose text is read as missing is \<^verbatim>\<open>NaN\<close>.
\<close>

theorem process_data_rows_spec:
  assumes "string_column lib (map fst csv)" "string_column lib (map snd csv)"
    and "\<forall>(t, v) \<in> set csv. \<not> na_value lib v"
  shows "(\<exists>out. process_data lib csv (Inr out)) \<and>
     (\<forall>res. process_data lib csv res \<longrightarrow>
        (\<exists>out. res = Inr out \<and> length out = length csv \<and>
           mset (map (\<lambda>r. (Text r, Video_URL r)) out) =
             mset (map (\<lambda>(t, v). (if na_value lib t then NaN else Str t,
                                  Str (str ''https://qipedc.moet.gov.vn'' @ v))) csv) \<and>
           (\<forall>r \<in> set out. \<exists>url.
              Video_URL r = Str url \<and>
              Region r = extract_region_from_url (decimal_digit lib) url \<and>
              Label r =
                (case Text r of
                   NaN \<Rightarrow> NaN
                 | Str t \<Rightarrow>
                     Str (map (\<lambda>c. if c = of_char CHR '' '' then of_char CHR ''_'' else c) t @
                          (case Region r of None \<Rightarrow> [] | Some code \<Rightarrow> code))))))"
proof -
  let ?p = "str ''https://qipedc.moet.gov.vn''"
  let ?f = "\<lambda>(t, v).
        \<lparr>Text = (if na_value lib t then NaN else Str t),
         Video_URL = Str (?p @ v),
         Region = extract_region_from_url (decimal_digit lib) (?p @ v),
         Label =
           (if na_value lib t then NaN
            else Str (str_replace (of_char CHR '' '') (of_char CHR ''_'') t @
              fillna [] (extract_region_from_url (decimal_digit lib) (?p @ v))))\<rparr>"
  have fr: "process_frame lib csv = Inr (map ?f csv)"
    using assms by (rule process_frame_rows)
  note pd = process_data_Inr[OF fr]
  have ex: "\<exists>out. process_data lib csv (Inr out)"
    using sort_values_exists[of "map ?f csv"] unfolding pd by simp
  have all: "\<exists>out. res = Inr out \<and> length out = length csv \<and>
           mset (map (\<lambda>r. (Text r, Video_URL r)) out) =
             mset (map (\<lambda>(t, v). (if na_value lib t then NaN else Str t, Str (?p @ v))) csv) \<and>
           (\<forall>r \<in> set out. \<exists>url.
              Video_URL r = Str url \<and>
              Region r = extract_region_from_url (decimal_digit lib) url \<and>
              Label r =
                (case Text r of
                   NaN \<Rightarrow> NaN
                 | Str t \<Rightarrow>
                     Str (map (\<lambda>c. if c = of_char CHR '' '' then of_char CHR ''_'' else c) t @
                          (case Region r of None \<Rightarrow> [] | Some code \<Rightarrow> code))))"
    if "process_data lib csv res" for res
  proof -
    from that obtain out where res: "res = Inr out" and sv: "sort_values (map ?f csv) out"
      unfolding pd by blast
    have ms: "mset out = mset (map ?f csv)" using sv by (simp add: sort_values_def)
    have 1: "length out = length csv"
      using arg_cong[OF ms, of size] by simp
    have "mset (map (\<lambda>r. (Text r, Video_URL r)) out) =
        image_mset (\<lambda>r. (Text r, Video_URL r)) (mset (map ?f csv))"
      using ms by simp
    also have "\<dots> = mset (map (\<lambda>(t, v). (if na_value lib t then NaN else Str t, Str (?p @ v))) csv)"
      by (simp add: comp_def case_prod_unfold multiset.map_comp)
    finally have 2: "mset (map (\<lambda>r. (Text r, Video_URL r)) out) =
        mset (map (\<lambda>(t, v). (if na_value lib t then NaN else Str t, Str (?p @ v))) csv)" .
    have "set out = set (map ?f csv)" using ms by (rule mset_eq_setD)
    then have 3: "\<forall>r \<in> set out. \<exists>url.
              Video_URL r = Str url \<and>
              Region r = extract_region_from_url (decimal_digit lib) url \<and>
              Label r =
                (case Text r of
                   NaN \<Rightarrow> NaN
                 | Str t \<Rightarrow>
                     Str (map (\<lambda>c. if c = of_char CHR '' '' then of_char CHR ''_'' else c) t @
                          (case Region r of None \<Rightarrow> [] | Some code \<Rightarrow> code)))"
      by (auto simp: str_replace_def fillna_def)
    from res 1 2 3 show ?thesis by blast
  qed
  from ex all show ?thesis by blast
qed

theorem process_data_rows_spec_witness:
  "string_column example_library (map fst example_csv) \<and>
   string_column example_library (map snd example_csv) \<and>
   list_all (\<lambda>(t, v). \<not> na_value example_library v) example_csv \<and>
   (\<exists>out. process_data example_library example_csv (Inr out) \<and> length out = 3 \<and>
      mset (map (\<lambda>r. (Text r, Video_URL r)) out) =
        {#(Str (str ''cam on''), Str (str ''https://qipedc.moet.gov.vn/videos/D0002N.mp4?autoplay=true'')),
          (Str (str ''xin chao''), Str (str ''https://qipedc.moet.gov.vn/videos/W0003.mp4?autoplay=true'')),
          (Str [259, 110, 32, 99, 417, 109], Str (str ''https://qipedc.moet.gov.vn/videos/D0001B.mp4?autoplay=true''))#}) \<and>
   process_frame example_library example_csv =
     Inr [\<lparr>Text = Str (str ''cam on''),
           Video_URL = Str (str ''https://qipedc.moet.gov.vn/videos/D0002N.mp4?autoplay=true''),
           Region = Some (str ''N''), Label = Str (str ''cam_onN'')\<rparr>,
          \<lparr>Text = Str (str ''xin chao''),
           Video_URL = Str (str ''https://qipedc.moet.gov.vn/videos/W0003.mp4?autoplay=true''),
           Region = None, Label = Str (str ''xin_chao'')\<rparr>,
          \<lparr>Text = Str [259, 110, 32, 99, 417, 109],
           Video_URL = Str (str ''https://qipedc.moet.gov.vn/videos/D0001B.mp4?autoplay=true''),
           Region = Some (str ''B''), Label = Str [259, 110, 95, 99, 417, 109, 66]\<rparr>]"
proof -
  have h1: "string_column example_library (map fst example_csv)"
    unfolding example_library_sel by code_simp
  have h2: "string_column example_library (map snd example_csv)"
    unfolding example_library_sel by code_simp
  have h3: "list_all (\<lambda>(t, v). \<not> na_value example_library v) example_csv"
    unfolding example_library_sel by code_simp
  then have h3': "\<forall>(t, v) \<in> set example_csv. \<not> na_value example_library v"
    by (simp add: list_all_iff)
  have n: "length example_csv = 3" by (simp add: example_csv_def)
  have m: "mset (map (\<lambda>(t, v). (if na_value example_library t then NaN else Str t,
                Str (str ''https://qipedc.moet.gov.vn'' @ v))) example_csv) =
        {#(Str (str ''cam on''), Str (str ''https://qipedc.moet.gov.vn/videos/D0002N.mp4?autoplay=true'')),
          (Str (str ''xin chao''), Str (str ''https://qipedc.moet.gov.vn/videos/W0003.mp4?autoplay=true'')),
          (Str [259, 110, 32, 99, 417, 109], Str (str ''https://qipedc.moet.gov.vn/videos/D0001B.mp4?autoplay=true''))#}"
    unfolding example_library_sel example_csv_def by (simp add: example_na_def str_def)
  have f: "process_frame example_library example_csv =
     Inr [\<lparr>Text = Str (str ''cam on''),
           Video_URL = Str (str ''https://qipedc.moet.gov.vn/videos/D0002N.mp4?autoplay=true''),
           Region = Some (str ''N''), Label = Str (str ''cam_onN'')\<rparr>,
          \<lparr>Text = Str (str ''xin chao''),
           Video_URL = Str (str ''https://qipedc.moet.gov.vn/videos/W0003.mp4?autoplay=true''),
           Region = None, Label = Str (str ''xin_chao'')\<rparr>,
          \<lparr>Text = Str [259, 110, 32, 99, 417, 109],
           Video_URL = Str (str ''https://qipedc.moet.gov.vn/videos/D0001B.mp4?autoplay=true''),
           Region = Some (str ''B''), Label = Str [259, 110, 95, 99, 417, 109, 66]\<rparr>]"
    by code_simp
  note spec = process_data_rows_spec[OF h1 h2 h3']
  from spec obtain out where pd: "process_data example_library example_csv (Inr out)"
    by blast
  from spec pd obtain out' where o: "Inr out = (Inr out' :: pandas_error + row list)"
    and l: "length out' = length example_csv"
    and ms: "mset (map (\<lambda>r. (Text r, Video_URL r)) out') =
       mset (map (\<lambda>(t, v). (if na_value example_library t then NaN else Str t,
                Str (str ''https://qipedc.moet.gov.vn'' @ v))) example_csv)"
    by blast
  from o have oo: "out' = out" by simp
  have 1: "length out = 3" using l n oo by simp
  have 2: "mset (map (\<lambda>r. (Text r, Video_URL r)) out) =
        {#(Str (str ''cam on''), Str (str ''https://qipedc.moet.gov.vn/videos/D0002N.mp4?autoplay=true'')),
          (Str (str ''xin chao''), Str (str ''https://qipedc.moet.gov.vn/videos/W0003.mp4?autoplay=true'')),
          (Str [259, 110, 32, 99, 417, 109], Str (str ''https://qipedc.moet.gov.vn/videos/D0001B.mp4?autoplay=true''))#}"
    using ms m unfolding oo by (rule trans)
  from pd 1 2 have e: "\<exists>out. process_data example_library example_csv (Inr out) \<and> length out = 3 \<and>
      mset (map (\<lambda>r. (Text r, Video_URL r)) out) =
        {#(Str (str ''cam on''), Str (str ''https://qipedc.moet.gov.vn/videos/D0002N.mp4?autoplay=true'')),
          (Str (str ''xin chao''), Str (str ''https://qipedc.moet.gov.vn/videos/W0003.mp4?autoplay=true'')),
          (Str [259, 110, 32, 99, 417, 109], Str (str ''https://qipedc.moet.gov.vn/videos/D0001B.mp4?autoplay=true''))#}"
    by blast
  from h1 h2 h3 e f show ?thesis by (intro conjI)
qed

theorem process_data_NA_text_gives_NaN_label:
  "process_frame example_library na_csv =
     Inr [\<lparr>Text = NaN,
           Video_URL = Str (str ''https://qipedc.moet.gov.vn/videos/D0001B.mp4?autoplay=true''),
           Region = Some (str ''B''), Label = NaN\<rparr>,
          \<lparr>Text = Str (str ''cam on''),
           Video_URL = Str (str ''https://qipedc.moet.gov.vn/videos/D0002N.mp4?autoplay=true''),
           Region = Some (str ''N''), Label = Str (str ''cam_onN'')\<rparr>] \<and>
   process_data example_library na_csv
     (Inr [\<lparr>Text = Str (str ''cam on''),
           Video_URL = Str (str ''https://qipedc.moet.gov.vn/videos/D0002N.mp4?autoplay=true''),
           Region = Some (str ''N''), Label = Str (str ''cam_onN'')\<rparr>,
          \<lparr>Text = NaN,
           Video_URL = Str (str ''https://qipedc.moet.gov.vn/videos/D0001B.mp4?autoplay=true''),
           Region = Some (str ''B''), Label = NaN\<rparr>]) \<and>
   \<not> (\<exists>out. process_data example_library na_csv (Inr out) \<and> Str (str ''NAB'') \<in> set (map Label out))"
proof -
  have f: "process_frame example_library na_csv =
     Inr [\<lparr>Text = NaN,
           Video_URL = Str (str ''https://qipedc.moet.gov.vn/videos/D0001B.mp4?autoplay=true''),
           Region = Some (str ''B''), Label = NaN\<rparr>,
          \<lparr>Text = Str (str ''cam on''),
           Video_URL = Str (str ''https://qipedc.moet.gov.vn/videos/D0002N.mp4?autoplay=true''),
           Region = Some (str ''N''), Label = Str (str ''cam_onN'')\<rparr>]"
    by code_simp
  have 2: "process_data example_library na_csv
     (Inr [\<lparr>Text = Str (str ''cam on''),
           Video_URL = Str (str ''https://qipedc.moet.gov.vn/videos/D0002N.mp4?autoplay=true''),
           Region = Some (str ''N''), Label = Str (str ''cam_onN'')\<rparr>,
          \<lparr>Text = NaN,
           Video_URL = Str (str ''https://qipedc.moet.gov.vn/videos/D0001B.mp4?autoplay=true''),
           Region = Some (str ''B''), Label = NaN\<rparr>])"
    unfolding process_data_def f by (simp add: sort_values_def text_key_def)
  have 3: "\<not> (\<exists>out. process_data example_library na_csv (Inr out) \<and> Str (str ''NAB'') \<in> set (map Label out))"
  proof
    assume "\<exists>out. process_data example_library na_csv (Inr out) \<and> Str (str ''NAB'') \<in> set (map Label out)"
    then obtain out where pd: "process_data example_library na_csv (Inr out)"
      and lb: "Str (str ''NAB'') \<in> set (map Label out)" by blast
    from pd have "mset out = mset [\<lparr>Text = NaN,
           Video_URL = Str (str ''https://qipedc.moet.gov.vn/videos/D0001B.mp4?autoplay=true''),
           Region = Some (str ''B''), Label = NaN\<rparr>,
          \<lparr>Text = Str (str ''cam on''),
           Video_URL = Str (str ''https://qipedc.moet.gov.vn/videos/D0002N.mp4?autoplay=true''),
           Region = Some (str ''N''), Label = Str (str ''cam_onN'')\<rparr>]"
      unfolding process_data_def f by (simp add: sort_values_def)
    then have "set out = set [\<lparr>Text = NaN,
           Video_URL = Str (str ''https://qipedc.moet.gov.vn/videos/D0001B.mp4?autoplay=true''),
           Region = Some (str ''B''), Label = NaN\<rparr>,
          \<lparr>Text = Str (str ''cam on''),
           Video_URL = Str (str ''https://qipedc.moet.gov.vn/videos/D0002N.mp4?autoplay=true''),
           Region = Some (str ''N''), Label = Str (str ''cam_onN'')\<rparr>]"
      by (rule mset_eq_setD)
    with lb show False by (auto simp: str_def)
  qed
  from f 2 3 show ?thesis by (intro conjI)
qed

end
